theory Spec2Isabelle
  imports Main
begin

section \<open>Error codes and exceptions\<close>

text \<open>
  \<^verbatim>\<open>enum class FutureErrorCode\<close> of \<^verbatim>\<open>future_errorcodes.hpp\<close> and
  \<^verbatim>\<open>toString\<close> of \<^verbatim>\<open>utils.hpp\<close>.
\<close>

datatype FutureErrorCode =
  broken_promise | future_already_retrieved | promise_already_satisfied | no_state

fun toString :: "FutureErrorCode \<Rightarrow> string" where
  "toString broken_promise = ''broken_promise''"
| "toString future_already_retrieved = ''future_already_retrieved''"
| "toString promise_already_satisfied = ''promise_already_satisfied''"
| "toString no_state = ''no_state''"

text \<open>
  The exceptions that travel through the library: \<^verbatim>\<open>FutureError\<close> (a
  \<^verbatim>\<open>std::logic_error\<close> built from an error code), the two standard exceptions the
  code can raise by itself (\<^verbatim>\<open>std::bad_function_call\<close> from the empty dispatch table,
  \<^verbatim>\<open>std::bad_optional_access\<close> from \<^verbatim>\<open>m_result.value()\<close>), and any exception of
  the user, given by its kind (the dynamic type) and its message.
\<close>

datatype exn =
  FutureError FutureErrorCode
| bad_function_call
| bad_optional_access
| user_exception string string

fun what :: "exn \<Rightarrow> string" where
  "what (FutureError code) = toString code"
| "what bad_function_call = ''bad_function_call''"
| "what bad_optional_access = ''bad optional access''"
| "what (user_exception kind msg) = msg"

text \<open>
  What a call does: it returns a value, it throws, or it does not return (a \<^verbatim>\<open>wait()\<close> on
  a cell that nobody completes, or user code that never comes back).
\<close>

datatype 'a outcome = Returned 'a | Threw exn | Blocked

section \<open>UniqueFunction (uniquefunction.hpp)\<close>

text \<open>
  A \<^verbatim>\<open>UniqueFunction\<close> is a pointer to a dispatch table and a storage union. The class
  keeps the two in step, so they are one value here: \<open>Empty_fn\<close> is the object whose
  \<^verbatim>\<open>m_vtablePtr\<close> is \<^verbatim>\<open>EmptyVtable\<close>; \<open>Tiny c\<close> has the table built with \<^verbatim>\<open>SmallTag\<close>
  and the closure \<open>c\<close> in \<^verbatim>\<open>m_storage.m_tiny\<close>; \<open>Big c\<close> has the table built with
  \<^verbatim>\<open>BigTag\<close> and \<open>c\<close> behind \<^verbatim>\<open>m_storage.m_big\<close>.
\<close>

datatype 'c UniqueFunction = Empty_fn | Tiny 'c | Big 'c

definition s_TinyStorageMaxCapacity :: nat where
  "s_TinyStorageMaxCapacity = 32"

text \<open>\<^verbatim>\<open>IsSmall<T>\<close>, on \<^verbatim>\<open>sizeof (T)\<close>.\<close>

definition IsSmall :: "nat \<Rightarrow> bool" where
  "IsSmall sizeof_T \<longleftrightarrow> sizeof_T \<le> s_TinyStorageMaxCapacity"

text \<open>The constructors: default, from \<^verbatim>\<open>nullptr\<close>, from a closure of a given size.\<close>

definition UniqueFunction_default :: "'c UniqueFunction" where
  "UniqueFunction_default = Empty_fn"

definition UniqueFunction_nullptr :: "'c UniqueFunction" where
  "UniqueFunction_nullptr = Empty_fn"

definition UniqueFunction_closure :: "nat \<Rightarrow> 'c \<Rightarrow> 'c UniqueFunction" where
  "UniqueFunction_closure sizeof_C closure =
     (if IsSmall sizeof_C then Tiny closure else Big closure)"

text \<open>
  The move constructor takes the table pointer of \<open>other\<close>, leaves \<^verbatim>\<open>EmptyVtable\<close> there
  and moves the closure across: the result is the new object and what is left of \<open>other\<close>.
\<close>

definition UniqueFunction_move :: "'c UniqueFunction \<Rightarrow> 'c UniqueFunction \<times> 'c UniqueFunction" where
  "UniqueFunction_move other = (other, Empty_fn)"

definition operator_bool :: "'c UniqueFunction \<Rightarrow> bool" where
  "operator_bool this \<longleftrightarrow> this \<noteq> Empty_fn"

text \<open>\<^verbatim>\<open>swap\<close>: three moves through a temporary storage, then the table pointers.\<close>

definition swap_fn :: "'c UniqueFunction \<Rightarrow> 'c UniqueFunction \<Rightarrow> 'c UniqueFunction \<times> 'c UniqueFunction" where
  "swap_fn this other = (other, this)"

text \<open>
  \<^verbatim>\<open>operator()\<close> goes through \<^verbatim>\<open>m_invokePtr\<close>: the empty table throws
  \<^verbatim>\<open>std::bad_function_call\<close>, the other two call the closure with the arguments. The
  closure's own call operator is \<open>app\<close>: from the closure, the arguments and the state
  outside it to the outcome, the closure afterwards (the storage is \<^verbatim>\<open>mutable\<close>) and the
  state afterwards.
\<close>

fun operator_call ::
  "('c \<Rightarrow> 'a \<Rightarrow> 's \<Rightarrow> 'r outcome \<times> 'c \<times> 's) \<Rightarrow> 'c UniqueFunction \<Rightarrow> 'a \<Rightarrow> 's
     \<Rightarrow> 'r outcome \<times> 'c UniqueFunction \<times> 's" where
  "operator_call app Empty_fn arg s = (Threw bad_function_call, Empty_fn, s)"
| "operator_call app (Tiny c) arg s = (case app c arg s of (r, c', s') \<Rightarrow> (r, Tiny c', s'))"
| "operator_call app (Big c) arg s = (case app c arg s of (r, c', s') \<Rightarrow> (r, Big c', s'))"

section \<open>The shared state (future.hpp)\<close>

text \<open>
  A \<^verbatim>\<open>std::shared_ptr<SharedState<T>>\<close> is an address or null. Cells live in a store
  from addresses to cells; \<^verbatim>\<open>std::make_shared\<close> takes the next free address. Reference
  counts and the release of a cell are outside the model: a cell stays in the store.
\<close>

type_synonym addr = nat

datatype Promise = Promise (promise_statePtr: "addr option")

datatype Future = Future (future_statePtr: "addr option")

datatype SharedFuture = SharedFuture (shared_statePtr: "addr option")

text \<open>
  The closures that a \<^verbatim>\<open>UniqueFunction<void()>\<close> of a cell can hold.

  \<open>ThenLambda state p f\<close> is the lambda that \<^verbatim>\<open>Future::then\<close> builds, with its three
  captures: the pointer to the cell of the future, the new promise and the user's function.

  \<open>UserLambda g\<close> is any other callable handed to \<^verbatim>\<open>setContinuation\<close>.

  User code acts on a state of its own, of type \<open>'u\<close>, and may return, throw or not come
  back. The function given to \<^verbatim>\<open>then\<close> receives a \<^verbatim>\<open>Future\<close>; it is modelled by what it
  does as a function of the outcome that \<^verbatim>\<open>get()\<close> on that future has. User code does not
  reach the cells in any other way.
\<close>

datatype ('v, 'u) Closure =
  UserLambda "'u \<Rightarrow> unit outcome \<times> 'u"
| ThenLambda "addr option" Promise "'v outcome \<Rightarrow> 'u \<Rightarrow> 'v outcome \<times> 'u"

record ('v, 'u) SharedState =
  m_done :: bool
  m_retrieved :: bool
  m_result :: "'v option"
  m_then :: "('v, 'u) Closure UniqueFunction"
  m_exception :: "exn option"

text \<open>The default member initialisers of \<^verbatim>\<open>SharedState\<close>.\<close>

definition SharedState_init :: "('v, 'u) SharedState" where
  "SharedState_init =
     \<lparr>m_done = False, m_retrieved = False, m_result = None, m_then = Empty_fn,
      m_exception = None\<rparr>"

record ('v, 'u) world =
  cells :: "addr \<Rightarrow> ('v, 'u) SharedState"
  next_addr :: addr
  env :: 'u

definition world_init :: "'u \<Rightarrow> ('v, 'u) world" where
  "world_init u = \<lparr>cells = (\<lambda>_. SharedState_init), next_addr = 0, env = u\<rparr>"

definition upd_cell ::
  "addr \<Rightarrow> (('v, 'u) SharedState \<Rightarrow> ('v, 'u) SharedState) \<Rightarrow> ('v, 'u) world \<Rightarrow> ('v, 'u) world" where
  "upd_cell a g w = w\<lparr>cells := (cells w)(a := g (cells w a))\<rparr>"

text \<open>\<^verbatim>\<open>checkState\<close>: throws when the cell is done.\<close>

definition checkState :: "addr \<Rightarrow> ('v, 'u) world \<Rightarrow> unit outcome" where
  "checkState a w =
     (if m_done (cells w a) then Threw (FutureError promise_already_satisfied)
      else Returned ())"

text \<open>
  \<^verbatim>\<open>wait\<close> returns once \<^verbatim>\<open>m_done\<close> is set. In a run where nobody else completes the cell,
  a wait on a pending cell does not return.
\<close>

definition SharedState_wait :: "addr \<Rightarrow> ('v, 'u) world \<Rightarrow> unit outcome" where
  "SharedState_wait a w = (if m_done (cells w a) then Returned () else Blocked)"

text \<open>
  \<^verbatim>\<open>getValue\<close>: wait, rethrow a stored exception, otherwise \<^verbatim>\<open>m_result.value()\<close>, which
  throws \<^verbatim>\<open>std::bad_optional_access\<close> on an empty optional.
\<close>

definition SharedState_getValue :: "addr \<Rightarrow> ('v, 'u) world \<Rightarrow> 'v outcome" where
  "SharedState_getValue a w =
     (case SharedState_wait a w of
        Blocked \<Rightarrow> Blocked
      | Threw e \<Rightarrow> Threw e
      | Returned _ \<Rightarrow>
          (case m_exception (cells w a) of
             Some e \<Rightarrow> Threw e
           | None \<Rightarrow>
               (case m_result (cells w a) of
                  None \<Rightarrow> Threw bad_optional_access
                | Some v \<Rightarrow> Returned v)))"

text \<open>
  \<^verbatim>\<open>SharedState<void>\<close> is the same code without \<^verbatim>\<open>m_result\<close>: it is the cell with
  \<open>unit\<close> for the value type, but its \<^verbatim>\<open>getValue\<close> reads no optional and returns when
  no exception is stored.
\<close>

definition SharedState_void_getValue :: "addr \<Rightarrow> (unit, 'u) world \<Rightarrow> unit outcome" where
  "SharedState_void_getValue a w =
     (case SharedState_wait a w of
        Blocked \<Rightarrow> Blocked
      | Threw e \<Rightarrow> Threw e
      | Returned _ \<Rightarrow>
          (case m_exception (cells w a) of
             Some e \<Rightarrow> Threw e
           | None \<Rightarrow> Returned ()))"

text \<open>\<^verbatim>\<open>setAndThrowIfRetrieved\<close>: \<^verbatim>\<open>test_and_set\<close> on the flag.\<close>

definition setAndThrowIfRetrieved :: "addr \<Rightarrow> ('v, 'u) world \<Rightarrow> unit outcome \<times> ('v, 'u) world" where
  "setAndThrowIfRetrieved a w =
     (let was_set = m_retrieved (cells w a);
          w1 = upd_cell a (\<lambda>c. c\<lparr>m_retrieved := True\<rparr>) w
      in if was_set then (Threw (FutureError future_already_retrieved), w1)
         else (Returned (), w1))"

section \<open>Future and SharedFuture: the operations that run no continuation\<close>

text \<open>
  Each operation on a handle returns the outcome and the handle afterwards.
  \<^verbatim>\<open>Future::get\<close> moves \<^verbatim>\<open>m_statePtr\<close> into a local before it calls \<^verbatim>\<open>getValue\<close>.
\<close>

definition Future_default :: Future where
  "Future_default = Future None"

definition Future_valid :: "Future \<Rightarrow> bool" where
  "Future_valid this \<longleftrightarrow> future_statePtr this \<noteq> None"

definition Future_get :: "Future \<Rightarrow> ('v, 'u) world \<Rightarrow> 'v outcome \<times> Future" where
  "Future_get this w =
     (case future_statePtr this of
        None \<Rightarrow> (Threw (FutureError no_state), this)
      | Some statePtr \<Rightarrow> (SharedState_getValue statePtr w, Future None))"

definition Future_wait :: "Future \<Rightarrow> ('v, 'u) world \<Rightarrow> unit outcome \<times> Future" where
  "Future_wait this w =
     (case future_statePtr this of
        None \<Rightarrow> (Threw (FutureError no_state), this)
      | Some statePtr \<Rightarrow> (SharedState_wait statePtr w, this))"

definition Future_share :: "Future \<Rightarrow> SharedFuture \<times> Future" where
  "Future_share this = (SharedFuture (future_statePtr this), Future None)"

definition SharedFuture_valid :: "SharedFuture \<Rightarrow> bool" where
  "SharedFuture_valid this \<longleftrightarrow> shared_statePtr this \<noteq> None"

definition SharedFuture_get :: "SharedFuture \<Rightarrow> ('v, 'u) world \<Rightarrow> 'v outcome \<times> SharedFuture" where
  "SharedFuture_get this w =
     (case shared_statePtr this of
        None \<Rightarrow> (Threw (FutureError no_state), this)
      | Some statePtr \<Rightarrow> (SharedState_getValue statePtr w, this))"

definition SharedFuture_wait :: "SharedFuture \<Rightarrow> ('v, 'u) world \<Rightarrow> unit outcome \<times> SharedFuture" where
  "SharedFuture_wait this w =
     (case shared_statePtr this of
        None \<Rightarrow> (Threw (FutureError no_state), this)
      | Some statePtr \<Rightarrow> (SharedState_wait statePtr w, this))"

section \<open>Completion, continuations and destruction\<close>

text \<open>
  Completing a cell runs its continuation, the continuation completes the next cell, and
  destroying a continuation destroys the promise it holds, which resets the continuation
  of the next cell. These functions call each other through the stored closures, so they
  are defined together. The first argument bounds the depth of calls through a stored
  closure (\<^verbatim>\<open>m_invokePtr\<close> and \<^verbatim>\<open>m_destructPtr\<close>); \<open>None\<close> says that the bound was reached.

  \<open>UniqueFunction_call\<close> is \<^verbatim>\<open>operator()\<close> of a \<^verbatim>\<open>UniqueFunction<void()>\<close> and
  \<open>UniqueFunction_destroy\<close> its destructor; \<open>Closure_call\<close> and \<open>Closure_destroy\<close> are the
  body and the destructor of the closure; \<open>Promise_destroy\<close> is \<^verbatim>\<open>~Promise\<close>. A local
  \<^verbatim>\<open>UniqueFunction\<close> is destroyed when its scope ends, also when the scope is left by an
  exception. A call that does not return runs no destructor after it.
\<close>

function (sequential) UniqueFunction_call ::
    "nat \<Rightarrow> ('v, 'u) Closure UniqueFunction \<Rightarrow> ('v, 'u) world
       \<Rightarrow> (unit outcome \<times> ('v, 'u) Closure UniqueFunction \<times> ('v, 'u) world) option"
  and Closure_call ::
    "nat \<Rightarrow> ('v, 'u) Closure \<Rightarrow> ('v, 'u) world
       \<Rightarrow> (unit outcome \<times> ('v, 'u) Closure \<times> ('v, 'u) world) option"
  and UniqueFunction_destroy ::
    "nat \<Rightarrow> ('v, 'u) Closure UniqueFunction \<Rightarrow> ('v, 'u) world \<Rightarrow> ('v, 'u) world option"
  and Closure_destroy ::
    "nat \<Rightarrow> ('v, 'u) Closure \<Rightarrow> ('v, 'u) world \<Rightarrow> ('v, 'u) world option"
  and Promise_destroy ::
    "nat \<Rightarrow> Promise \<Rightarrow> ('v, 'u) world \<Rightarrow> ('v, 'u) world option"
  and resetContinuation ::
    "nat \<Rightarrow> addr \<Rightarrow> ('v, 'u) world \<Rightarrow> ('v, 'u) world option"
  and setStateDoneAndNotify ::
    "nat \<Rightarrow> addr \<Rightarrow> ('v, 'u) world \<Rightarrow> (unit outcome \<times> ('v, 'u) world) option"
  and SharedState_setValue ::
    "nat \<Rightarrow> addr \<Rightarrow> 'v \<Rightarrow> ('v, 'u) world \<Rightarrow> (unit outcome \<times> ('v, 'u) world) option"
  and SharedState_setException ::
    "nat \<Rightarrow> addr \<Rightarrow> exn option \<Rightarrow> ('v, 'u) world \<Rightarrow> (unit outcome \<times> ('v, 'u) world) option"
  and Promise_setValue ::
    "nat \<Rightarrow> Promise \<Rightarrow> 'v \<Rightarrow> ('v, 'u) world \<Rightarrow> (unit outcome \<times> ('v, 'u) world) option"
  and Promise_setException ::
    "nat \<Rightarrow> Promise \<Rightarrow> exn option \<Rightarrow> ('v, 'u) world \<Rightarrow> (unit outcome \<times> ('v, 'u) world) option"
where
  "UniqueFunction_call n Empty_fn w = Some (Threw bad_function_call, Empty_fn, w)"
| "UniqueFunction_call 0 (Tiny c) w = None"
| "UniqueFunction_call 0 (Big c) w = None"
| "UniqueFunction_call (Suc n) (Tiny c) w =
     (case Closure_call n c w of
        None \<Rightarrow> None
      | Some (r, c1, w1) \<Rightarrow> Some (r, Tiny c1, w1))"
| "UniqueFunction_call (Suc n) (Big c) w =
     (case Closure_call n c w of
        None \<Rightarrow> None
      | Some (r, c1, w1) \<Rightarrow> Some (r, Big c1, w1))"

| "Closure_call n (UserLambda g) w =
     (case g (env w) of (r, u) \<Rightarrow> Some (r, UserLambda g, w\<lparr>env := u\<rparr>))"
| "Closure_call n (ThenLambda state p f) w =
     (let futureContinuation = Future state;
          this = ThenLambda None p f
      in case f (fst (Future_get futureContinuation w)) (env w) of
           (Blocked, u) \<Rightarrow> Some (Blocked, this, w\<lparr>env := u\<rparr>)
         | (Threw e, u) \<Rightarrow>
             (case Promise_setException n p (Some e) (w\<lparr>env := u\<rparr>) of
                None \<Rightarrow> None
              | Some (r, w1) \<Rightarrow> Some (r, this, w1))
         | (Returned v, u) \<Rightarrow>
             (case Promise_setValue n p v (w\<lparr>env := u\<rparr>) of
                None \<Rightarrow> None
              | Some (Threw e, w1) \<Rightarrow>
                  (case Promise_setException n p (Some e) w1 of
                     None \<Rightarrow> None
                   | Some (r, w2) \<Rightarrow> Some (r, this, w2))
              | Some (r, w1) \<Rightarrow> Some (r, this, w1)))"

| "UniqueFunction_destroy n Empty_fn w = Some w"
| "UniqueFunction_destroy 0 (Tiny c) w = None"
| "UniqueFunction_destroy 0 (Big c) w = None"
| "UniqueFunction_destroy (Suc n) (Tiny c) w = Closure_destroy n c w"
| "UniqueFunction_destroy (Suc n) (Big c) w = Closure_destroy n c w"

| "Closure_destroy n (UserLambda g) w = Some w"
| "Closure_destroy n (ThenLambda state p f) w = Promise_destroy n p w"

| "Promise_destroy n (Promise None) w = Some w"
| "Promise_destroy n (Promise (Some statePtr)) w = resetContinuation n statePtr w"

| "resetContinuation n a w =
     (let continuation = m_then (cells w a);
          w1 = upd_cell a (\<lambda>c. c\<lparr>m_then := Empty_fn\<rparr>) w
      in UniqueFunction_destroy n continuation w1)"

| "setStateDoneAndNotify n a w =
     (let then0 = m_then (cells w a);
          w1 = upd_cell a (\<lambda>c. c\<lparr>m_done := True, m_then := Empty_fn\<rparr>) w
      in if operator_bool then0
         then (case UniqueFunction_call n then0 w1 of
                 None \<Rightarrow> None
               | Some (Blocked, then1, w2) \<Rightarrow> Some (Blocked, w2)
               | Some (r, then1, w2) \<Rightarrow>
                   (case UniqueFunction_destroy n then1 w2 of
                      None \<Rightarrow> None
                    | Some w3 \<Rightarrow> Some (r, w3)))
         else Some (Returned (), w1))"

| "SharedState_setValue n a result w =
     (case checkState a w of
        Returned _ \<Rightarrow>
          setStateDoneAndNotify n a (upd_cell a (\<lambda>c. c\<lparr>m_result := Some result\<rparr>) w)
      | r \<Rightarrow> Some (r, w))"

| "SharedState_setException n a exc w =
     (case checkState a w of
        Returned _ \<Rightarrow>
          setStateDoneAndNotify n a (upd_cell a (\<lambda>c. c\<lparr>m_exception := exc\<rparr>) w)
      | r \<Rightarrow> Some (r, w))"

| "Promise_setValue n (Promise None) v w = Some (Threw (FutureError no_state), w)"
| "Promise_setValue n (Promise (Some statePtr)) v w = SharedState_setValue n statePtr v w"

| "Promise_setException n (Promise None) exc w = Some (Threw (FutureError no_state), w)"
| "Promise_setException n (Promise (Some statePtr)) exc w =
     SharedState_setException n statePtr exc w"
  by pat_completeness auto

termination
  by (relation "measure
        (case_sum
          (case_sum
            (case_sum (\<lambda>(n, _). 8 * n + 1) (\<lambda>(n, _). 8 * n + 5))
            (case_sum (\<lambda>(n, _). 8 * n + 1)
              (case_sum (\<lambda>(n, _). 8 * n + 4) (\<lambda>(n, _). 8 * n + 3))))
          (case_sum
            (case_sum (\<lambda>(n, _). 8 * n + 2)
              (case_sum (\<lambda>(n, _). 8 * n + 2) (\<lambda>(n, _). 8 * n + 3)))
            (case_sum (\<lambda>(n, _). 8 * n + 3)
              (case_sum (\<lambda>(n, _). 8 * n + 4) (\<lambda>(n, _). 8 * n + 4)))))")
     auto

text \<open>
  \<^verbatim>\<open>setContinuation\<close> takes the \<^verbatim>\<open>UniqueFunction\<close> by value: the parameter is destroyed
  when the call ends.
\<close>

definition setContinuation ::
  "nat \<Rightarrow> addr \<Rightarrow> ('v, 'u) Closure UniqueFunction \<Rightarrow> ('v, 'u) world
     \<Rightarrow> (unit outcome \<times> ('v, 'u) world) option" where
  "setContinuation n a continuation w =
     (let done = m_done (cells w a);
          (then1, continuation1) =
             (if \<not> done then swap_fn (m_then (cells w a)) continuation
              else (m_then (cells w a), continuation));
          w1 = upd_cell a (\<lambda>c. c\<lparr>m_then := then1\<rparr>) w
      in if done \<and> operator_bool continuation1
         then (case UniqueFunction_call n continuation1 w1 of
                 None \<Rightarrow> None
               | Some (Blocked, continuation2, w2) \<Rightarrow> Some (Blocked, w2)
               | Some (r, continuation2, w2) \<Rightarrow>
                   (case UniqueFunction_destroy n continuation2 w2 of
                      None \<Rightarrow> None
                    | Some w3 \<Rightarrow> Some (r, w3)))
         else (case UniqueFunction_destroy n continuation1 w1 of
                 None \<Rightarrow> None
               | Some w3 \<Rightarrow> Some (Returned (), w3)))"

section \<open>Promise and Future::then\<close>

text \<open>The constructor of \<^verbatim>\<open>Promise\<close>: \<^verbatim>\<open>std::make_shared<SharedState<T>>()\<close>.\<close>

definition Promise_new :: "('v, 'u) world \<Rightarrow> Promise \<times> ('v, 'u) world" where
  "Promise_new w =
     (Promise (Some (next_addr w)),
      w\<lparr>cells := (cells w)(next_addr w := SharedState_init),
        next_addr := Suc (next_addr w)\<rparr>)"

definition Promise_getFuture :: "Promise \<Rightarrow> ('v, 'u) world \<Rightarrow> Future outcome \<times> ('v, 'u) world" where
  "Promise_getFuture this w =
     (case promise_statePtr this of
        None \<Rightarrow> (Threw (FutureError no_state), w)
      | Some statePtr \<Rightarrow>
          (case setAndThrowIfRetrieved statePtr w of
             (Returned _, w1) \<Rightarrow> (Returned (Future (Some statePtr)), w1)
           | (Threw e, w1) \<Rightarrow> (Threw e, w1)
           | (Blocked, w1) \<Rightarrow> (Blocked, w1)))"

text \<open>
  \<^verbatim>\<open>Future::then\<close>. \<open>sizeof_lambda\<close> is the size of the lambda's closure type, which
  decides between the inline buffer and the heap. The promise is moved into the closure,
  so the local \<^verbatim>\<open>promise\<close> is null when it is destroyed, unless \<^verbatim>\<open>getFuture\<close> threw
  before. The result is the outcome, this future afterwards and the world.
\<close>

definition Future_then ::
  "nat \<Rightarrow> Future \<Rightarrow> nat \<Rightarrow> ('v outcome \<Rightarrow> 'u \<Rightarrow> 'v outcome \<times> 'u) \<Rightarrow> ('v, 'u) world
     \<Rightarrow> (Future outcome \<times> Future \<times> ('v, 'u) world) option" where
  "Future_then n this sizeof_lambda f w =
     (case future_statePtr this of
        None \<Rightarrow> Some (Threw (FutureError no_state), this, w)
      | Some statePtr \<Rightarrow>
          (case Promise_new w of
             (promise, w1) \<Rightarrow>
               (case Promise_getFuture promise w1 of
                  (Returned future, w2) \<Rightarrow>
                    (let continuation =
                           UniqueFunction_closure sizeof_lambda
                             (ThenLambda (Some statePtr) promise f);
                         state = statePtr
                     in case setContinuation n state (fst (UniqueFunction_move continuation)) w2 of
                          None \<Rightarrow> None
                        | Some (Returned _, w3) \<Rightarrow> Some (Returned future, Future None, w3)
                        | Some (Threw e, w3) \<Rightarrow> Some (Threw e, Future None, w3)
                        | Some (Blocked, w3) \<Rightarrow> Some (Blocked, Future None, w3))
                | (Threw e, w2) \<Rightarrow>
                    (case Promise_destroy n promise w2 of
                       None \<Rightarrow> None
                     | Some w3 \<Rightarrow> Some (Threw e, this, w3))
                | (Blocked, w2) \<Rightarrow> Some (Blocked, this, w2))))"

section \<open>Sequences of calls\<close>

text \<open>
  Calling a \<^verbatim>\<open>UniqueFunction\<close> on one argument list after the other, and calling a closure
  itself on them: the outcomes in order, the callable afterwards, the state afterwards.
\<close>

fun calls ::
  "('c \<Rightarrow> 'a \<Rightarrow> 's \<Rightarrow> 'r outcome \<times> 'c \<times> 's) \<Rightarrow> 'c UniqueFunction \<Rightarrow> 'a list \<Rightarrow> 's
     \<Rightarrow> 'r outcome list \<times> 'c UniqueFunction \<times> 's" where
  "calls app this [] s = ([], this, s)"
| "calls app this (arg # args) s =
     (case operator_call app this arg s of
        (r, this1, s1) \<Rightarrow>
          (case calls app this1 args s1 of (rs, this2, s2) \<Rightarrow> (r # rs, this2, s2)))"

fun closure_calls ::
  "('c \<Rightarrow> 'a \<Rightarrow> 's \<Rightarrow> 'r outcome \<times> 'c \<times> 's) \<Rightarrow> 'c \<Rightarrow> 'a list \<Rightarrow> 's
     \<Rightarrow> 'r outcome list \<times> 'c \<times> 's" where
  "closure_calls app c [] s = ([], c, s)"
| "closure_calls app c (arg # args) s =
     (case app c arg s of
        (r, c1, s1) \<Rightarrow>
          (case closure_calls app c1 args s1 of (rs, c2, s2) \<Rightarrow> (r # rs, c2, s2)))"

section \<open>How a world changes\<close>

text \<open>
  \<open>cleared w w'\<close>: from \<open>w\<close> to \<open>w'\<close> nothing happened but that continuations were taken
  out of cells.

  \<open>advances w w'\<close>: no cell was allocated, no retrieval flag changed, a cell that was done
  is done with the same result and exception, a cell that is still pending has the result
  and exception it had, and a stored continuation is the one that was there or is gone.
\<close>

definition cleared :: "('v, 'u) world \<Rightarrow> ('v, 'u) world \<Rightarrow> bool" where
  "cleared w w' \<longleftrightarrow>
     env w' = env w \<and> next_addr w' = next_addr w \<and>
     (\<forall>a. cells w' a = cells w a \<or> cells w' a = (cells w a)\<lparr>m_then := Empty_fn\<rparr>)"

definition cell_advances :: "('v, 'u) SharedState \<Rightarrow> ('v, 'u) SharedState \<Rightarrow> bool" where
  "cell_advances c c' \<longleftrightarrow>
     m_retrieved c' = m_retrieved c
   \<and> (m_done c \<longrightarrow> m_done c')
   \<and> (m_done c \<or> \<not> m_done c' \<longrightarrow>
         m_result c' = m_result c \<and> m_exception c' = m_exception c)
   \<and> (m_then c' = m_then c \<or> m_then c' = Empty_fn)"

definition advances :: "('v, 'u) world \<Rightarrow> ('v, 'u) world \<Rightarrow> bool" where
  "advances w w' \<longleftrightarrow>
     next_addr w' = next_addr w \<and> (\<forall>a. cell_advances (cells w a) (cells w' a))"

text \<open>The cells that hold a continuation.\<close>

definition continuations :: "('v, 'u) world \<Rightarrow> addr set" where
  "continuations w = {a. m_then (cells w a) \<noteq> Empty_fn}"

section \<open>Operations on cells, one after the other\<close>

text \<open>
  The calls that change a world. A promise or a future changes a world only through these:
  \<^verbatim>\<open>Promise::setValue\<close>, \<^verbatim>\<open>setException\<close>, \<^verbatim>\<open>getFuture\<close> and \<^verbatim>\<open>~Promise\<close> call
  \<^verbatim>\<open>setValue\<close>, \<^verbatim>\<open>setException\<close>, \<^verbatim>\<open>setAndThrowIfRetrieved\<close> and \<^verbatim>\<open>resetContinuation\<close>
  on the cell of the promise, and \<^verbatim>\<open>Future::then\<close> makes a promise, takes its future and
  calls \<^verbatim>\<open>setContinuation\<close>. \<^verbatim>\<open>get\<close>, \<^verbatim>\<open>wait\<close>, \<^verbatim>\<open>valid\<close> and \<^verbatim>\<open>share\<close> change no
  cell. A caller may go on after a call that threw.
\<close>

datatype ('v, 'u) operation =
  Op_Promise_new
| Op_setValue addr 'v
| Op_setException addr "exn option"
| Op_setContinuation addr "('v, 'u) Closure UniqueFunction"
| Op_resetContinuation addr
| Op_setAndThrowIfRetrieved addr

fun perform ::
  "nat \<Rightarrow> ('v, 'u) operation \<Rightarrow> ('v, 'u) world \<Rightarrow> (unit outcome \<times> ('v, 'u) world) option" where
  "perform n Op_Promise_new w = Some (Returned (), snd (Promise_new w))"
| "perform n (Op_setValue a v) w = SharedState_setValue n a v w"
| "perform n (Op_setException a e) w = SharedState_setException n a e w"
| "perform n (Op_setContinuation a continuation) w = setContinuation n a continuation w"
| "perform n (Op_resetContinuation a) w =
     (case resetContinuation n a w of None \<Rightarrow> None | Some w1 \<Rightarrow> Some (Returned (), w1))"
| "perform n (Op_setAndThrowIfRetrieved a) w = Some (setAndThrowIfRetrieved a w)"

fun perform_all ::
  "nat \<Rightarrow> ('v, 'u) operation list \<Rightarrow> ('v, 'u) world \<Rightarrow> ('v, 'u) world option" where
  "perform_all n [] w = Some w"
| "perform_all n (operation # operations) w =
     (case perform n operation w of
        None \<Rightarrow> None
      | Some (r, w1) \<Rightarrow> perform_all n operations w1)"

text \<open>
  \<open>settles w w'\<close>: the cells allocated in \<open>w\<close> are allocated in \<open>w'\<close>; a retrieval flag
  that was set is set; a cell that was done is done with the same result and exception,
  and a cell that is still pending has the result and exception it had.
\<close>

definition cell_settles :: "('v, 'u) SharedState \<Rightarrow> ('v, 'u) SharedState \<Rightarrow> bool" where
  "cell_settles c c' \<longleftrightarrow>
     (m_retrieved c \<longrightarrow> m_retrieved c')
   \<and> (m_done c \<longrightarrow> m_done c')
   \<and> (m_done c \<or> \<not> m_done c' \<longrightarrow>
         m_result c' = m_result c \<and> m_exception c' = m_exception c)"

definition settles :: "('v, 'u) world \<Rightarrow> ('v, 'u) world \<Rightarrow> bool" where
  "settles w w' \<longleftrightarrow>
     next_addr w \<le> next_addr w'
   \<and> (\<forall>a < next_addr w. cell_settles (cells w a) (cells w' a))"

text \<open>A pending cell holds neither a result nor an exception.\<close>

definition cell_ok :: "('v, 'u) SharedState \<Rightarrow> bool" where
  "cell_ok c \<longleftrightarrow> (\<not> m_done c \<longrightarrow> m_result c = None \<and> m_exception c = None)"

section \<open>User code and the test program\<close>

text \<open>
  Three shapes of a function handed to \<^verbatim>\<open>then\<close>. \<open>via_get body\<close> calls \<^verbatim>\<open>get()\<close> on its
  future first and goes on with the value, as \<^verbatim>\<open>f\<close> of \<^verbatim>\<open>futuretest.cpp\<close> does
  (\<^verbatim>\<open>return future.get()*2;\<close>): an exception of \<^verbatim>\<open>get()\<close> leaves the function before
  \<open>body\<close> runs. \<open>throwing e\<close> throws \<open>e\<close>, and \<open>ignoring x\<close> returns \<open>x\<close>, without a look
  at the future.
\<close>

definition via_get ::
  "('v \<Rightarrow> 'u \<Rightarrow> 'v outcome \<times> 'u) \<Rightarrow> 'v outcome \<Rightarrow> 'u \<Rightarrow> 'v outcome \<times> 'u" where
  "via_get body got u =
     (case got of
        Returned x \<Rightarrow> body x u
      | Threw e \<Rightarrow> (Threw e, u)
      | Blocked \<Rightarrow> (Blocked, u))"

definition throwing :: "exn \<Rightarrow> 'v outcome \<Rightarrow> 'u \<Rightarrow> 'v outcome \<times> 'u" where
  "throwing e got u = (Threw e, u)"

definition ignoring :: "'v \<Rightarrow> 'v outcome \<Rightarrow> 'u \<Rightarrow> 'v outcome \<times> 'u" where
  "ignoring x got u = (Returned x, u)"


text \<open>
  The test \<^verbatim>\<open>testFutureThenThen\<close> with the two functions and the value as parameters:
  \<^verbatim>\<open>Promise promise; future = promise.getFuture(); then = future.then(g).then(h);
  promise.setValue(v); then.get()\<close>. An exception leaves the program.
\<close>

definition testFutureThenThen ::
  "nat \<Rightarrow> nat \<Rightarrow> ('v outcome \<Rightarrow> 'u \<Rightarrow> 'v outcome \<times> 'u)
     \<Rightarrow> nat \<Rightarrow> ('v outcome \<Rightarrow> 'u \<Rightarrow> 'v outcome \<times> 'u) \<Rightarrow> 'v \<Rightarrow> ('v, 'u) world
     \<Rightarrow> ('v outcome \<times> ('v, 'u) world) option" where
  "testFutureThenThen n sizeof_g g sizeof_h h v w =
     (case Promise_new w of
        (promise, w0) \<Rightarrow>
          (case Promise_getFuture promise w0 of
             (Returned future, w1) \<Rightarrow>
               (case Future_then n future sizeof_g g w1 of
                  None \<Rightarrow> None
                | Some (Returned future1, _, w2) \<Rightarrow>
                    (case Future_then n future1 sizeof_h h w2 of
                       None \<Rightarrow> None
                     | Some (Returned then2, _, w3) \<Rightarrow>
                         (case Promise_setValue n promise v w3 of
                            None \<Rightarrow> None
                          | Some (Returned _, w4) \<Rightarrow> Some (fst (Future_get then2 w4), w4)
                          | Some (Threw e, w4) \<Rightarrow> Some (Threw e, w4)
                          | Some (Blocked, w4) \<Rightarrow> Some (Blocked, w4))
                     | Some (Threw e, _, w3) \<Rightarrow> Some (Threw e, w3)
                     | Some (Blocked, _, w3) \<Rightarrow> Some (Blocked, w3))
                | Some (Threw e, _, w2) \<Rightarrow> Some (Threw e, w2)
                | Some (Blocked, _, w2) \<Rightarrow> Some (Blocked, w2))
           | (Threw e, w1) \<Rightarrow> Some (Threw e, w1)
           | (Blocked, w1) \<Rightarrow> Some (Blocked, w1)))"

section \<open>Where broken_promise could come from\<close>

text \<open>
  The library has the error code \<^verbatim>\<open>broken_promise\<close>. User code could throw or store a
  \<^verbatim>\<open>FutureError\<close> with that code by itself; the predicates below say that it does not:
  a function given to \<^verbatim>\<open>then\<close> does not throw it unless \<^verbatim>\<open>get()\<close> on its future does,
  a callable given to \<^verbatim>\<open>setContinuation\<close> does not throw it, no cell stores it, and no
  operation hands it in.
\<close>

definition is_broken_promise :: "'a outcome \<Rightarrow> bool" where
  "is_broken_promise r \<longleftrightarrow> r = Threw (FutureError broken_promise)"

definition fn_free :: "('v outcome \<Rightarrow> 'u \<Rightarrow> 'v outcome \<times> 'u) \<Rightarrow> bool" where
  "fn_free f \<longleftrightarrow> (\<forall>got u. \<not> is_broken_promise got \<longrightarrow> \<not> is_broken_promise (fst (f got u)))"

fun closure_free :: "('v, 'u) Closure \<Rightarrow> bool" where
  "closure_free (UserLambda g) \<longleftrightarrow> (\<forall>u. \<not> is_broken_promise (fst (g u)))"
| "closure_free (ThenLambda state p f) \<longleftrightarrow> fn_free f"

fun function_free :: "('v, 'u) Closure UniqueFunction \<Rightarrow> bool" where
  "function_free Empty_fn \<longleftrightarrow> True"
| "function_free (Tiny c) \<longleftrightarrow> closure_free c"
| "function_free (Big c) \<longleftrightarrow> closure_free c"

definition cell_free :: "('v, 'u) SharedState \<Rightarrow> bool" where
  "cell_free c \<longleftrightarrow>
     m_exception c \<noteq> Some (FutureError broken_promise) \<and> function_free (m_then c)"

definition world_free :: "('v, 'u) world \<Rightarrow> bool" where
  "world_free w \<longleftrightarrow> (\<forall>a. cell_free (cells w a))"

fun operation_free :: "('v, 'u) operation \<Rightarrow> bool" where
  "operation_free (Op_setException a e) \<longleftrightarrow> e \<noteq> Some (FutureError broken_promise)"
| "operation_free (Op_setContinuation a continuation) \<longleftrightarrow> function_free continuation"
| "operation_free operation \<longleftrightarrow> True"

section \<open>Frame lemmas\<close>

lemma cleared_refl: "cleared w w"
  by (simp add: cleared_def)

lemma cleared_trans: "cleared w w1 \<Longrightarrow> cleared w1 w2 \<Longrightarrow> cleared w w2"
  unfolding cleared_def
  apply (intro conjI allI)
    apply simp
   apply simp
  subgoal for a
    apply (elim conjE)
    apply (erule_tac x=a in allE)+
    apply auto
    done
  done

lemma cleared_reset: "cleared w (upd_cell a (\<lambda>c. c\<lparr>m_then := Empty_fn\<rparr>) w)"
  by (simp add: cleared_def upd_cell_def)

lemma destroy_cleared:
  fixes w :: "('v, 'u) world"
  shows "UniqueFunction_destroy n this w = Some w' \<Longrightarrow> cleared w w'"
proof (induction n arbitrary: this w w')
  case 0
  then show ?case by (cases this) (auto simp: cleared_refl)
next
  case (Suc n)
  have reset: "cleared w0 w1"
    if "resetContinuation n a w0 = Some w1" for a and w0 w1 :: "('v, 'u) world"
    using that
      Suc.IH [of "m_then (cells w0 a)" "upd_cell a (\<lambda>c. c\<lparr>m_then := Empty_fn\<rparr>) w0" w1]
    by (auto simp: Let_def intro: cleared_trans [OF cleared_reset])
  have promise: "cleared w0 w1"
    if "Promise_destroy n q w0 = Some w1" for q and w0 w1 :: "('v, 'u) world"
    using that reset by (cases q; cases "promise_statePtr q") (auto simp: cleared_refl)
  have closure: "cleared w0 w1"
    if "Closure_destroy n c w0 = Some w1" for c and w0 w1 :: "('v, 'u) world"
    using that promise by (cases c) (auto simp: cleared_refl)
  from Suc.prems closure show ?case
    by (cases this) (auto simp: cleared_refl)
qed

lemma resetContinuation_cleared:
  "resetContinuation n a w = Some w' \<Longrightarrow> cleared w w'"
  using destroy_cleared [of n "m_then (cells w a)" "upd_cell a (\<lambda>c. c\<lparr>m_then := Empty_fn\<rparr>) w" w']
  by (auto simp: Let_def intro: cleared_trans [OF cleared_reset])

lemma Promise_destroy_cleared:
  "Promise_destroy n q w = Some w' \<Longrightarrow> cleared w w'"
  using resetContinuation_cleared
  by (cases q; cases "promise_statePtr q") (auto simp: cleared_refl)

lemma cell_advances_refl: "cell_advances c c"
  by (simp add: cell_advances_def)

lemma cell_advances_trans:
  "cell_advances c c1 \<Longrightarrow> cell_advances c1 c2 \<Longrightarrow> cell_advances c c2"
  unfolding cell_advances_def by (intro conjI; metis)

lemma advances_refl: "advances w w"
  by (simp add: advances_def cell_advances_refl)

lemma advances_trans: "advances w w1 \<Longrightarrow> advances w1 w2 \<Longrightarrow> advances w w2"
  unfolding advances_def by (auto intro: cell_advances_trans)

lemma cleared_advances: "cleared w w' \<Longrightarrow> advances w w'"
  unfolding cleared_def advances_def
proof (intro conjI allI)
  fix a
  assume c: "env w' = env w \<and> next_addr w' = next_addr w \<and>
     (\<forall>a. cells w' a = cells w a \<or> cells w' a = (cells w a)\<lparr>m_then := Empty_fn\<rparr>)"
  then have "cells w' a = cells w a \<or> cells w' a = (cells w a)\<lparr>m_then := Empty_fn\<rparr>"
    by blast
  then show "cell_advances (cells w a) (cells w' a)"
    by (auto simp: cell_advances_def)
qed simp

lemma advances_env: "advances w (w\<lparr>env := u\<rparr>)"
  by (simp add: advances_def cell_advances_refl)

lemma advances_done:
  "advances w (upd_cell a (\<lambda>c. c\<lparr>m_done := True, m_then := Empty_fn\<rparr>) w)"
  by (simp add: advances_def upd_cell_def cell_advances_def)

lemma advances_result:
  "\<not> m_done (cells w a) \<Longrightarrow>
   advances w (upd_cell a (\<lambda>c. c\<lparr>m_done := True, m_then := Empty_fn\<rparr>)
                 (upd_cell a (\<lambda>c. c\<lparr>m_result := r\<rparr>) w))"
  by (simp add: advances_def upd_cell_def cell_advances_def)

lemma advances_exception:
  "\<not> m_done (cells w a) \<Longrightarrow>
   advances w (upd_cell a (\<lambda>c. c\<lparr>m_done := True, m_then := Empty_fn\<rparr>)
                 (upd_cell a (\<lambda>c. c\<lparr>m_exception := e\<rparr>) w))"
  by (simp add: advances_def upd_cell_def cell_advances_def)

text \<open>
  The steps from a property of \<open>UniqueFunction_call\<close> at depth \<open>n\<close> to the same property
  of the functions that reach it.
\<close>

lemma notify_advances:
  fixes w :: "('v, 'u) world"
  assumes call: "\<And>this (w0 :: ('v, 'u) world) r0 this' w1.
                   UniqueFunction_call n this w0 = Some (r0, this', w1) \<Longrightarrow> advances w0 w1"
    and run: "setStateDoneAndNotify n a w = Some (r, w')"
  shows "advances (upd_cell a (\<lambda>c. c\<lparr>m_done := True, m_then := Empty_fn\<rparr>) w) w'"
proof (cases "operator_bool (m_then (cells w a))")
  case False
  with run show ?thesis by (auto simp: Let_def advances_refl)
next
  case True
  let ?w1 = "upd_cell a (\<lambda>c. c\<lparr>m_done := True, m_then := Empty_fn\<rparr>) w"
  from True run obtain r1 then1 w2
    where c: "UniqueFunction_call n (m_then (cells w a)) ?w1 = Some (r1, then1, w2)"
    by (auto simp: Let_def split: option.splits)
  have a2: "advances ?w1 w2" by (rule call [OF c])
  show ?thesis
  proof (cases r1)
    case Blocked
    with True run c a2 show ?thesis by (auto simp: Let_def)
  next
    case (Returned u)
    with True run c obtain w3 where d: "UniqueFunction_destroy n then1 w2 = Some w3" and "w' = w3"
      by (auto simp: Let_def split: option.splits)
    with a2 show ?thesis
      by (auto intro: advances_trans cleared_advances destroy_cleared)
  next
    case (Threw e)
    with True run c obtain w3 where d: "UniqueFunction_destroy n then1 w2 = Some w3" and "w' = w3"
      by (auto simp: Let_def split: option.splits)
    with a2 show ?thesis
      by (auto intro: advances_trans cleared_advances destroy_cleared)
  qed
qed

lemma setValue_advances_step:
  fixes w :: "('v, 'u) world"
  assumes call: "\<And>this (w0 :: ('v, 'u) world) r0 this' w1.
                   UniqueFunction_call n this w0 = Some (r0, this', w1) \<Longrightarrow> advances w0 w1"
    and run: "SharedState_setValue n a x w = Some (r, w')"
  shows "advances w w'"
proof (cases "m_done (cells w a)")
  case True
  with run show ?thesis by (simp add: checkState_def advances_refl)
next
  case False
  with run have "setStateDoneAndNotify n a (upd_cell a (\<lambda>c. c\<lparr>m_result := Some x\<rparr>) w) = Some (r, w')"
    by (simp add: checkState_def)
  from notify_advances [OF call this] advances_result [OF False, of "Some x"]
  show ?thesis by (rule advances_trans [rotated])
qed

lemma setException_advances_step:
  fixes w :: "('v, 'u) world"
  assumes call: "\<And>this (w0 :: ('v, 'u) world) r0 this' w1.
                   UniqueFunction_call n this w0 = Some (r0, this', w1) \<Longrightarrow> advances w0 w1"
    and run: "SharedState_setException n a e w = Some (r, w')"
  shows "advances w w'"
proof (cases "m_done (cells w a)")
  case True
  with run show ?thesis by (simp add: checkState_def advances_refl)
next
  case False
  with run have "setStateDoneAndNotify n a (upd_cell a (\<lambda>c. c\<lparr>m_exception := e\<rparr>) w) = Some (r, w')"
    by (simp add: checkState_def)
  from notify_advances [OF call this] advances_exception [OF False, of e]
  show ?thesis by (rule advances_trans [rotated])
qed

lemma Promise_setValue_advances_step:
  fixes w :: "('v, 'u) world"
  assumes call: "\<And>this (w0 :: ('v, 'u) world) r0 this' w1.
                   UniqueFunction_call n this w0 = Some (r0, this', w1) \<Longrightarrow> advances w0 w1"
    and run: "Promise_setValue n q x w = Some (r, w')"
  shows "advances w w'"
proof (cases q)
  case (Promise sp)
  with run show ?thesis
    by (cases sp) (auto simp: advances_refl intro: setValue_advances_step [OF call])
qed

lemma Promise_setException_advances_step:
  fixes w :: "('v, 'u) world"
  assumes call: "\<And>this (w0 :: ('v, 'u) world) r0 this' w1.
                   UniqueFunction_call n this w0 = Some (r0, this', w1) \<Longrightarrow> advances w0 w1"
    and run: "Promise_setException n q e w = Some (r, w')"
  shows "advances w w'"
proof (cases q)
  case (Promise sp)
  with run show ?thesis
    by (cases sp) (auto simp: advances_refl intro: setException_advances_step [OF call])
qed

lemma Closure_call_advances_step:
  fixes w :: "('v, 'u) world"
  assumes call: "\<And>this (w0 :: ('v, 'u) world) r0 this' w1.
                   UniqueFunction_call n this w0 = Some (r0, this', w1) \<Longrightarrow> advances w0 w1"
    and run: "Closure_call n c w = Some (r, c', w')"
  shows "advances w w'"
proof (cases c)
  case (UserLambda g)
  with run show ?thesis by (auto simp: advances_env split: prod.splits)
next
  case (ThenLambda st q f)
  obtain o1 u where fo: "f (fst (Future_get (Future st) w)) (env w) = (o1, u)"
    by (cases "f (fst (Future_get (Future st) w)) (env w)")
  show ?thesis
  proof (cases o1)
    case Blocked
    with run ThenLambda fo show ?thesis by (auto simp: advances_env Let_def)
  next
    case (Threw e)
    with run ThenLambda fo obtain r1
      where "Promise_setException n q (Some e) (w\<lparr>env := u\<rparr>) = Some (r1, w')"
      by (auto simp: Let_def split: option.splits)
    from Promise_setException_advances_step [OF call this] show ?thesis
      by (rule advances_trans [OF advances_env])
  next
    case (Returned v)
    with run ThenLambda fo obtain r1 w1
      where s1: "Promise_setValue n q v (w\<lparr>env := u\<rparr>) = Some (r1, w1)"
      by (auto simp: Let_def split: option.splits)
    have a1: "advances w w1"
      by (rule advances_trans [OF advances_env Promise_setValue_advances_step [OF call s1]])
    show ?thesis
    proof (cases r1)
      case (Threw e)
      with run ThenLambda fo Returned s1 obtain r2
        where "Promise_setException n q (Some e) w1 = Some (r2, w')"
        by (auto simp: Let_def split: option.splits)
      from Promise_setException_advances_step [OF call this] a1 show ?thesis
        by (rule advances_trans [rotated])
    next
      case Blocked
      with run ThenLambda fo Returned s1 a1 show ?thesis by (auto simp: Let_def)
    next
      case (Returned x)
      with run ThenLambda fo \<open>o1 = Returned v\<close> s1 a1 show ?thesis by (auto simp: Let_def)
    qed
  qed
qed

lemma UniqueFunction_call_advances:
  fixes w :: "('v, 'u) world"
  shows "UniqueFunction_call n this w = Some (r, this', w') \<Longrightarrow> advances w w'"
proof (induction n arbitrary: this w r this' w')
  case 0
  then show ?case by (cases this) (auto simp: advances_refl)
next
  case (Suc n)
  from Suc.prems show ?case
    by (cases this)
       (auto simp: advances_refl split: option.splits
             intro: Closure_call_advances_step [OF Suc.IH])
qed

lemma setStateDoneAndNotify_advances:
  assumes "setStateDoneAndNotify n a w = Some (r, w')"
  shows "advances (upd_cell a (\<lambda>c. c\<lparr>m_done := True, m_then := Empty_fn\<rparr>) w) w'"
  by (rule notify_advances [OF _ assms]) (erule UniqueFunction_call_advances)

lemma SharedState_setValue_advances:
  assumes "SharedState_setValue n a x w = Some (r, w')"
  shows "advances w w'"
  by (rule setValue_advances_step [OF _ assms]) (erule UniqueFunction_call_advances)

lemma SharedState_setException_advances:
  assumes "SharedState_setException n a e w = Some (r, w')"
  shows "advances w w'"
  by (rule setException_advances_step [OF _ assms]) (erule UniqueFunction_call_advances)

lemma Promise_setValue_advances:
  assumes "Promise_setValue n q x w = Some (r, w')"
  shows "advances w w'"
  by (rule Promise_setValue_advances_step [OF _ assms]) (erule UniqueFunction_call_advances)

lemma Promise_setException_advances:
  assumes "Promise_setException n q e w = Some (r, w')"
  shows "advances w w'"
  by (rule Promise_setException_advances_step [OF _ assms]) (erule UniqueFunction_call_advances)

lemma Closure_call_advances:
  assumes "Closure_call n c w = Some (r, c', w')"
  shows "advances w w'"
  by (rule Closure_call_advances_step [OF _ assms]) (erule UniqueFunction_call_advances)

section \<open>Every call ends when the bound is large enough\<close>

text \<open>
  Each call through a stored closure first takes the closure out of its cell, so the
  number of cells that hold a continuation bounds the depth.
\<close>

lemma continuations_cleared: "cleared w w' \<Longrightarrow> continuations w' \<subseteq> continuations w"
  unfolding cleared_def continuations_def
proof
  fix a
  assume c: "env w' = env w \<and> next_addr w' = next_addr w \<and>
     (\<forall>a. cells w' a = cells w a \<or> cells w' a = (cells w a)\<lparr>m_then := Empty_fn\<rparr>)"
    and a: "a \<in> {a. m_then (cells w' a) \<noteq> Empty_fn}"
  from c have "cells w' a = cells w a \<or> cells w' a = (cells w a)\<lparr>m_then := Empty_fn\<rparr>"
    by blast
  with a show "a \<in> {a. m_then (cells w a) \<noteq> Empty_fn}" by auto
qed

lemma continuations_advances: "advances w w' \<Longrightarrow> continuations w' \<subseteq> continuations w"
proof
  fix a
  assume adv: "advances w w'" and a: "a \<in> continuations w'"
  from adv have "m_then (cells w' a) = m_then (cells w a) \<or> m_then (cells w' a) = Empty_fn"
    by (simp add: advances_def cell_advances_def)
  with a show "a \<in> continuations w" by (auto simp: continuations_def)
qed

lemma continuations_env [simp]: "continuations (w\<lparr>env := u\<rparr>) = continuations w"
  by (simp add: continuations_def)

lemma continuations_reset:
  "continuations (upd_cell a (\<lambda>c. c\<lparr>m_then := Empty_fn\<rparr>) w) = continuations w - {a}"
  by (auto simp: continuations_def upd_cell_def)

lemma continuations_done:
  "continuations (upd_cell a (\<lambda>c. c\<lparr>m_done := True, m_then := Empty_fn\<rparr>) w)
     = continuations w - {a}"
  by (auto simp: continuations_def upd_cell_def)

lemma continuations_result:
  "continuations (upd_cell a (\<lambda>c. c\<lparr>m_result := r\<rparr>) w) = continuations w"
  by (auto simp: continuations_def upd_cell_def)

lemma continuations_exception:
  "continuations (upd_cell a (\<lambda>c. c\<lparr>m_exception := e\<rparr>) w) = continuations w"
  by (auto simp: continuations_def upd_cell_def)

lemma continuations_retrieved:
  "continuations (upd_cell a (\<lambda>c. c\<lparr>m_retrieved := b\<rparr>) w) = continuations w"
  by (auto simp: continuations_def upd_cell_def)

lemma card_take:
  assumes "finite (continuations w)" and "m_then (cells w a) \<noteq> Empty_fn"
  shows "Suc (card (continuations w - {a})) = card (continuations w)"
proof -
  from assms(2) have "a \<in> continuations w" by (simp add: continuations_def)
  with assms(1) show ?thesis by (rule card_Suc_Diff1)
qed

lemma card_mono_continuations:
  "finite (continuations w) \<Longrightarrow> continuations w' \<subseteq> continuations w \<Longrightarrow>
   finite (continuations w') \<and> card (continuations w') \<le> card (continuations w)"
  using finite_subset [of "continuations w'" "continuations w"]
    card_mono [of "continuations w" "continuations w'"]
  by simp

lemma destroy_returns:
  fixes w :: "('v, 'u) world"
  assumes "finite (continuations w)"
    and "card (continuations w) + (if this = Empty_fn then 0 else 1) \<le> n"
  shows "\<exists>w'. UniqueFunction_destroy n this w = Some w'"
  using assms
proof (induction n arbitrary: this w)
  case 0
  then show ?case by (cases this) auto
next
  case (Suc n)
  have reset: "\<exists>w'. resetContinuation n a w0 = Some w'"
    if "finite (continuations w0)" "card (continuations w0) \<le> n"
    for a and w0 :: "('v, 'u) world"
  proof (cases "m_then (cells w0 a) = Empty_fn")
    case True
    then show ?thesis by (simp add: Let_def)
  next
    case False
    let ?w1 = "upd_cell a (\<lambda>c. c\<lparr>m_then := Empty_fn\<rparr>) w0"
    have eq: "continuations ?w1 = continuations w0 - {a}"
      by (rule continuations_reset)
    have "finite (continuations ?w1)" using that(1) eq by simp
    moreover have "card (continuations ?w1) + (if m_then (cells w0 a) = Empty_fn then 0 else 1) \<le> n"
      using card_take [OF that(1) False] that(2) False eq by simp
    ultimately show ?thesis
      using Suc.IH [of ?w1 "m_then (cells w0 a)"] by (simp add: Let_def)
  qed
  have promise: "\<exists>w'. Promise_destroy n q w0 = Some w'"
    if "finite (continuations w0)" "card (continuations w0) \<le> n"
    for q and w0 :: "('v, 'u) world"
    using reset [OF that] by (cases q; cases "promise_statePtr q") auto
  have closure: "\<exists>w'. Closure_destroy n c w0 = Some w'"
    if "finite (continuations w0)" "card (continuations w0) \<le> n"
    for c and w0 :: "('v, 'u) world"
    using promise [OF that] by (cases c) auto
  from Suc.prems closure [of w] show ?case
    by (cases this) auto
qed

lemma resetContinuation_returns:
  fixes w :: "('v, 'u) world"
  assumes "finite (continuations w)" and "card (continuations w) \<le> n"
  shows "\<exists>w'. resetContinuation n a w = Some w'"
proof (cases "m_then (cells w a) = Empty_fn")
  case True
  then show ?thesis by (simp add: Let_def)
next
  case False
  let ?w1 = "upd_cell a (\<lambda>c. c\<lparr>m_then := Empty_fn\<rparr>) w"
  have eq: "continuations ?w1 = continuations w - {a}"
    by (rule continuations_reset)
  have "finite (continuations ?w1)" using assms(1) eq by simp
  moreover have "card (continuations ?w1) + (if m_then (cells w a) = Empty_fn then 0 else 1) \<le> n"
    using card_take [OF assms(1) False] assms(2) False eq by simp
  ultimately show ?thesis
    using destroy_returns [of ?w1 "m_then (cells w a)" n] by (simp add: Let_def)
qed

lemma Promise_destroy_returns:
  fixes w :: "('v, 'u) world"
  assumes "finite (continuations w)" and "card (continuations w) \<le> n"
  shows "\<exists>w'. Promise_destroy n q w = Some w'"
  using resetContinuation_returns [OF assms] by (cases q; cases "promise_statePtr q") auto

lemma notify_returns:
  fixes w :: "('v, 'u) world"
  assumes call: "\<And>this (w0 :: ('v, 'u) world).
                   finite (continuations w0) \<Longrightarrow>
                   card (continuations w0) + (if this = Empty_fn then 0 else 1) \<le> n \<Longrightarrow>
                   \<exists>r this' w1. UniqueFunction_call n this w0 = Some (r, this', w1)"
    and fin: "finite (continuations w)" and le: "card (continuations w) \<le> n"
  shows "\<exists>r w'. setStateDoneAndNotify n a w = Some (r, w')"
proof (cases "operator_bool (m_then (cells w a))")
  case False
  then show ?thesis by (simp add: Let_def)
next
  case True
  let ?w1 = "upd_cell a (\<lambda>c. c\<lparr>m_done := True, m_then := Empty_fn\<rparr>) w"
  from True have ne: "m_then (cells w a) \<noteq> Empty_fn" by (simp add: operator_bool_def)
  have fin1: "finite (continuations ?w1)" using fin by (simp add: continuations_done)
  have le1: "Suc (card (continuations ?w1)) \<le> n"
    using card_take [OF fin ne] le by (simp add: continuations_done)
  with ne have "card (continuations ?w1) + (if m_then (cells w a) = Empty_fn then 0 else 1) \<le> n"
    by simp
  from call [OF fin1 this] obtain r1 then1 w2
    where c: "UniqueFunction_call n (m_then (cells w a)) ?w1 = Some (r1, then1, w2)"
    by blast
  from card_mono_continuations [OF fin1 continuations_advances [OF UniqueFunction_call_advances [OF c]]]
  have fin2: "finite (continuations w2)" and le2: "card (continuations w2) \<le> card (continuations ?w1)"
    by simp_all
  from le1 le2 have "card (continuations w2) + (if then1 = Empty_fn then 0 else 1) \<le> n"
    by simp
  from destroy_returns [OF fin2 this] obtain w3
    where d: "UniqueFunction_destroy n then1 w2 = Some w3" by blast
  from True c d show ?thesis
    by (cases r1) (simp_all add: Let_def)
qed

lemma setValue_returns_step:
  fixes w :: "('v, 'u) world"
  assumes call: "\<And>this (w0 :: ('v, 'u) world).
                   finite (continuations w0) \<Longrightarrow>
                   card (continuations w0) + (if this = Empty_fn then 0 else 1) \<le> n \<Longrightarrow>
                   \<exists>r this' w1. UniqueFunction_call n this w0 = Some (r, this', w1)"
    and fin: "finite (continuations w)" and le: "card (continuations w) \<le> n"
  shows "\<exists>r w'. SharedState_setValue n a x w = Some (r, w')"
proof (cases "m_done (cells w a)")
  case True
  then show ?thesis by (simp add: checkState_def)
next
  case False
  with notify_returns [OF call, of "upd_cell a (\<lambda>c. c\<lparr>m_result := Some x\<rparr>) w" a] fin le
  show ?thesis by (simp add: checkState_def continuations_result)
qed

lemma setException_returns_step:
  fixes w :: "('v, 'u) world"
  assumes call: "\<And>this (w0 :: ('v, 'u) world).
                   finite (continuations w0) \<Longrightarrow>
                   card (continuations w0) + (if this = Empty_fn then 0 else 1) \<le> n \<Longrightarrow>
                   \<exists>r this' w1. UniqueFunction_call n this w0 = Some (r, this', w1)"
    and fin: "finite (continuations w)" and le: "card (continuations w) \<le> n"
  shows "\<exists>r w'. SharedState_setException n a e w = Some (r, w')"
proof (cases "m_done (cells w a)")
  case True
  then show ?thesis by (simp add: checkState_def)
next
  case False
  with notify_returns [OF call, of "upd_cell a (\<lambda>c. c\<lparr>m_exception := e\<rparr>) w" a] fin le
  show ?thesis by (simp add: checkState_def continuations_exception)
qed

lemma Promise_setValue_returns_step:
  fixes w :: "('v, 'u) world"
  assumes call: "\<And>this (w0 :: ('v, 'u) world).
                   finite (continuations w0) \<Longrightarrow>
                   card (continuations w0) + (if this = Empty_fn then 0 else 1) \<le> n \<Longrightarrow>
                   \<exists>r this' w1. UniqueFunction_call n this w0 = Some (r, this', w1)"
    and fin: "finite (continuations w)" and le: "card (continuations w) \<le> n"
  shows "\<exists>r w'. Promise_setValue n q x w = Some (r, w')"
proof (cases q)
  case (Promise sp)
  with setValue_returns_step [OF call fin le] show ?thesis by (cases sp) auto
qed

lemma Promise_setException_returns_step:
  fixes w :: "('v, 'u) world"
  assumes call: "\<And>this (w0 :: ('v, 'u) world).
                   finite (continuations w0) \<Longrightarrow>
                   card (continuations w0) + (if this = Empty_fn then 0 else 1) \<le> n \<Longrightarrow>
                   \<exists>r this' w1. UniqueFunction_call n this w0 = Some (r, this', w1)"
    and fin: "finite (continuations w)" and le: "card (continuations w) \<le> n"
  shows "\<exists>r w'. Promise_setException n q e w = Some (r, w')"
proof (cases q)
  case (Promise sp)
  with setException_returns_step [OF call fin le] show ?thesis by (cases sp) auto
qed

lemma Closure_call_returns_step:
  fixes w :: "('v, 'u) world"
  assumes call: "\<And>this (w0 :: ('v, 'u) world).
                   finite (continuations w0) \<Longrightarrow>
                   card (continuations w0) + (if this = Empty_fn then 0 else 1) \<le> n \<Longrightarrow>
                   \<exists>r this' w1. UniqueFunction_call n this w0 = Some (r, this', w1)"
    and fin: "finite (continuations w)" and le: "card (continuations w) \<le> n"
  shows "\<exists>r c' w'. Closure_call n c w = Some (r, c', w')"
proof (cases c)
  case (UserLambda g)
  then show ?thesis by (simp split: prod.splits)
next
  case (ThenLambda st q f)
  obtain o1 u where fo: "f (fst (Future_get (Future st) w)) (env w) = (o1, u)"
    by (cases "f (fst (Future_get (Future st) w)) (env w)")
  have fin0: "finite (continuations (w\<lparr>env := u\<rparr>))"
    and le0: "card (continuations (w\<lparr>env := u\<rparr>)) \<le> n"
    using fin le by simp_all
  show ?thesis
  proof (cases o1)
    case Blocked
    with ThenLambda fo show ?thesis by (simp add: Let_def)
  next
    case (Threw e)
    from Promise_setException_returns_step [OF call fin0 le0, of q "Some e"]
    obtain r1 w1 where "Promise_setException n q (Some e) (w\<lparr>env := u\<rparr>) = Some (r1, w1)"
      by blast
    with ThenLambda fo Threw show ?thesis by (simp add: Let_def)
  next
    case (Returned v)
    from Promise_setValue_returns_step [OF call fin0 le0, of q v]
    obtain r1 w1 where s1: "Promise_setValue n q v (w\<lparr>env := u\<rparr>) = Some (r1, w1)"
      by blast
    from card_mono_continuations [OF fin0 continuations_advances [OF Promise_setValue_advances [OF s1]]] le0
    have fin1: "finite (continuations w1)" and le1: "card (continuations w1) \<le> n"
      by simp_all
    show ?thesis
    proof (cases r1)
      case (Threw e)
      from Promise_setException_returns_step [OF call fin1 le1, of q "Some e"]
      obtain r2 w2 where "Promise_setException n q (Some e) w1 = Some (r2, w2)"
        by blast
      with ThenLambda fo Returned s1 Threw show ?thesis by (simp add: Let_def)
    next
      case Blocked
      with ThenLambda fo Returned s1 show ?thesis by (simp add: Let_def)
    next
      case (Returned x)
      with ThenLambda fo \<open>o1 = Returned v\<close> s1 show ?thesis by (simp add: Let_def)
    qed
  qed
qed

lemma UniqueFunction_call_returns:
  fixes w :: "('v, 'u) world"
  assumes "finite (continuations w)"
    and "card (continuations w) + (if this = Empty_fn then 0 else 1) \<le> n"
  shows "\<exists>r this' w'. UniqueFunction_call n this w = Some (r, this', w')"
  using assms
proof (induction n arbitrary: this w)
  case 0
  then show ?case by (cases this) auto
next
  case (Suc n)
  show ?case
  proof (cases this)
    case Empty_fn
    then show ?thesis by simp
  next
    case (Tiny c)
    with Suc.prems have "card (continuations w) \<le> n" by simp
    from Closure_call_returns_step [OF Suc.IH Suc.prems(1) this, of c] Tiny
    show ?thesis by auto
  next
    case (Big c)
    with Suc.prems have "card (continuations w) \<le> n" by simp
    from Closure_call_returns_step [OF Suc.IH Suc.prems(1) this, of c] Big
    show ?thesis by auto
  qed
qed

lemma SharedState_setValue_returns:
  fixes w :: "('v, 'u) world"
  assumes "finite (continuations w)" and "card (continuations w) \<le> n"
  shows "\<exists>r w'. SharedState_setValue n a x w = Some (r, w')"
  by (rule setValue_returns_step [OF _ assms]) (rule UniqueFunction_call_returns)

lemma SharedState_setException_returns:
  fixes w :: "('v, 'u) world"
  assumes "finite (continuations w)" and "card (continuations w) \<le> n"
  shows "\<exists>r w'. SharedState_setException n a e w = Some (r, w')"
  by (rule setException_returns_step [OF _ assms]) (rule UniqueFunction_call_returns)

lemma Promise_setValue_returns:
  fixes w :: "('v, 'u) world"
  assumes "finite (continuations w)" and "card (continuations w) \<le> n"
  shows "\<exists>r w'. Promise_setValue n q x w = Some (r, w')"
  by (rule Promise_setValue_returns_step [OF _ assms]) (rule UniqueFunction_call_returns)

lemma Promise_setException_returns:
  fixes w :: "('v, 'u) world"
  assumes "finite (continuations w)" and "card (continuations w) \<le> n"
  shows "\<exists>r w'. Promise_setException n q e w = Some (r, w')"
  by (rule Promise_setException_returns_step [OF _ assms]) (rule UniqueFunction_call_returns)

section \<open>The bound does not change a result\<close>

text \<open>
  A call that ends within a bound ends with the same result within every larger bound.
\<close>

lemma destroy_mono:
  fixes w :: "('v, 'u) world"
  shows "UniqueFunction_destroy n this w = Some w' \<Longrightarrow> n \<le> m \<Longrightarrow>
         UniqueFunction_destroy m this w = Some w'"
proof (induction n arbitrary: m this w w')
  case 0
  then show ?case by (cases this) auto
next
  case (Suc n)
  from Suc.prems(2) obtain m' where m: "m = Suc m'" and le: "n \<le> m'"
    by (cases m) auto
  have reset: "resetContinuation m' a w0 = Some w1"
    if "resetContinuation n a w0 = Some w1" for a and w0 w1 :: "('v, 'u) world"
    using that Suc.IH [OF _ le] by (simp add: Let_def)
  have promise: "Promise_destroy m' q w0 = Some w1"
    if "Promise_destroy n q w0 = Some w1" for q and w0 w1 :: "('v, 'u) world"
    using that reset by (cases q; cases "promise_statePtr q") auto
  have closure: "Closure_destroy m' c w0 = Some w1"
    if "Closure_destroy n c w0 = Some w1" for c and w0 w1 :: "('v, 'u) world"
    using that promise by (cases c) auto
  from Suc.prems(1) closure show ?case
    unfolding m by (cases this) auto
qed

lemma notify_mono:
  fixes w :: "('v, 'u) world"
  assumes call: "\<And>k (w0 :: ('v, 'u) world) x.
                   UniqueFunction_call n k w0 = Some x \<Longrightarrow> UniqueFunction_call m k w0 = Some x"
    and le: "n \<le> m"
    and run: "setStateDoneAndNotify n a w = Some x"
  shows "setStateDoneAndNotify m a w = Some x"
proof (cases "operator_bool (m_then (cells w a))")
  case False
  with run show ?thesis by (simp add: Let_def)
next
  case True
  let ?w1 = "upd_cell a (\<lambda>c. c\<lparr>m_done := True, m_then := Empty_fn\<rparr>) w"
  from True run obtain r1 then1 w2
    where c: "UniqueFunction_call n (m_then (cells w a)) ?w1 = Some (r1, then1, w2)"
    by (auto simp: Let_def split: option.splits)
  note c' = call [OF c]
  show ?thesis
  proof (cases r1)
    case Blocked
    with True run c c' show ?thesis by (simp add: Let_def)
  next
    case (Returned u)
    with True run c obtain w3 where d: "UniqueFunction_destroy n then1 w2 = Some w3"
      by (auto simp: Let_def split: option.splits)
    with True run c c' Returned destroy_mono [OF d le] show ?thesis by (simp add: Let_def)
  next
    case (Threw e)
    with True run c obtain w3 where d: "UniqueFunction_destroy n then1 w2 = Some w3"
      by (auto simp: Let_def split: option.splits)
    with True run c c' Threw destroy_mono [OF d le] show ?thesis by (simp add: Let_def)
  qed
qed

lemma setValue_mono_step:
  fixes w :: "('v, 'u) world"
  assumes call: "\<And>k (w0 :: ('v, 'u) world) x.
                   UniqueFunction_call n k w0 = Some x \<Longrightarrow> UniqueFunction_call m k w0 = Some x"
    and le: "n \<le> m"
    and run: "SharedState_setValue n a v w = Some x"
  shows "SharedState_setValue m a v w = Some x"
proof (cases "m_done (cells w a)")
  case True
  with run show ?thesis by (simp add: checkState_def)
next
  case False
  with run have "setStateDoneAndNotify n a (upd_cell a (\<lambda>c. c\<lparr>m_result := Some v\<rparr>) w) = Some x"
    by (simp add: checkState_def)
  from notify_mono [OF call le this] False show ?thesis by (simp add: checkState_def)
qed

lemma setException_mono_step:
  fixes w :: "('v, 'u) world"
  assumes call: "\<And>k (w0 :: ('v, 'u) world) x.
                   UniqueFunction_call n k w0 = Some x \<Longrightarrow> UniqueFunction_call m k w0 = Some x"
    and le: "n \<le> m"
    and run: "SharedState_setException n a e w = Some x"
  shows "SharedState_setException m a e w = Some x"
proof (cases "m_done (cells w a)")
  case True
  with run show ?thesis by (simp add: checkState_def)
next
  case False
  with run have "setStateDoneAndNotify n a (upd_cell a (\<lambda>c. c\<lparr>m_exception := e\<rparr>) w) = Some x"
    by (simp add: checkState_def)
  from notify_mono [OF call le this] False show ?thesis by (simp add: checkState_def)
qed

lemma Promise_setValue_mono_step:
  fixes w :: "('v, 'u) world"
  assumes call: "\<And>k (w0 :: ('v, 'u) world) x.
                   UniqueFunction_call n k w0 = Some x \<Longrightarrow> UniqueFunction_call m k w0 = Some x"
    and le: "n \<le> m"
    and run: "Promise_setValue n q v w = Some x"
  shows "Promise_setValue m q v w = Some x"
proof (cases q)
  case (Promise sp)
  show ?thesis
  proof (cases sp)
    case None
    with Promise run show ?thesis by simp
  next
    case (Some a)
    with Promise run have "SharedState_setValue n a v w = Some x" by simp
    from setValue_mono_step [OF call le this] Promise Some show ?thesis by simp
  qed
qed

lemma Promise_setException_mono_step:
  fixes w :: "('v, 'u) world"
  assumes call: "\<And>k (w0 :: ('v, 'u) world) x.
                   UniqueFunction_call n k w0 = Some x \<Longrightarrow> UniqueFunction_call m k w0 = Some x"
    and le: "n \<le> m"
    and run: "Promise_setException n q e w = Some x"
  shows "Promise_setException m q e w = Some x"
proof (cases q)
  case (Promise sp)
  show ?thesis
  proof (cases sp)
    case None
    with Promise run show ?thesis by simp
  next
    case (Some a)
    with Promise run have "SharedState_setException n a e w = Some x" by simp
    from setException_mono_step [OF call le this] Promise Some show ?thesis by simp
  qed
qed

lemma Closure_call_mono_step:
  fixes w :: "('v, 'u) world"
  assumes call: "\<And>k (w0 :: ('v, 'u) world) x.
                   UniqueFunction_call n k w0 = Some x \<Longrightarrow> UniqueFunction_call m k w0 = Some x"
    and le: "n \<le> m"
    and run: "Closure_call n c w = Some x"
  shows "Closure_call m c w = Some x"
proof (cases c)
  case (UserLambda g)
  with run show ?thesis by simp
next
  case (ThenLambda st q f)
  obtain o1 u where fo: "f (fst (Future_get (Future st) w)) (env w) = (o1, u)"
    by (cases "f (fst (Future_get (Future st) w)) (env w)")
  show ?thesis
  proof (cases o1)
    case Blocked
    with run ThenLambda fo show ?thesis by (simp add: Let_def)
  next
    case (Threw e)
    with run ThenLambda fo obtain y
      where s: "Promise_setException n q (Some e) (w\<lparr>env := u\<rparr>) = Some y"
      by (auto simp: Let_def split: option.splits)
    with run ThenLambda fo Threw Promise_setException_mono_step [OF call le s]
    show ?thesis by (simp add: Let_def)
  next
    case (Returned v)
    with run ThenLambda fo obtain r1 w1
      where s1: "Promise_setValue n q v (w\<lparr>env := u\<rparr>) = Some (r1, w1)"
      by (auto simp: Let_def split: option.splits)
    note s1' = Promise_setValue_mono_step [OF call le s1]
    show ?thesis
    proof (cases r1)
      case (Threw e)
      with run ThenLambda fo Returned s1 obtain y
        where s: "Promise_setException n q (Some e) w1 = Some y"
        by (auto simp: Let_def split: option.splits)
      with run ThenLambda fo Returned s1 s1' Threw Promise_setException_mono_step [OF call le s]
      show ?thesis by (simp add: Let_def)
    next
      case Blocked
      with run ThenLambda fo Returned s1 s1' show ?thesis by (simp add: Let_def)
    next
      case (Returned y)
      with run ThenLambda fo \<open>o1 = Returned v\<close> s1 s1' show ?thesis by (simp add: Let_def)
    qed
  qed
qed

lemma call_mono:
  fixes w :: "('v, 'u) world"
  shows "UniqueFunction_call n this w = Some x \<Longrightarrow> n \<le> m \<Longrightarrow>
         UniqueFunction_call m this w = Some x"
proof (induction n arbitrary: m this w x)
  case 0
  then show ?case by (cases this) auto
next
  case (Suc n)
  from Suc.prems(2) obtain m' where m: "m = Suc m'" and le: "n \<le> m'"
    by (cases m) auto
  have IH: "UniqueFunction_call m' k w0 = Some y"
    if "UniqueFunction_call n k w0 = Some y" for k y and w0 :: "('v, 'u) world"
    using Suc.IH [OF that le] .
  show ?case
  proof (cases this)
    case Empty_fn
    with Suc.prems show ?thesis by simp
  next
    case (Tiny c)
    with Suc.prems(1) obtain y where "Closure_call n c w = Some y"
      by (auto split: option.splits)
    with Suc.prems(1) Tiny Closure_call_mono_step [OF IH le this] show ?thesis
      unfolding m by simp
  next
    case (Big c)
    with Suc.prems(1) obtain y where "Closure_call n c w = Some y"
      by (auto split: option.splits)
    with Suc.prems(1) Big Closure_call_mono_step [OF IH le this] show ?thesis
      unfolding m by simp
  qed
qed

lemma SharedState_setValue_mono:
  assumes "SharedState_setValue n a v w = Some x" and "n \<le> m"
  shows "SharedState_setValue m a v w = Some x"
  by (rule setValue_mono_step [OF _ assms(2,1)]) (rule call_mono [OF _ assms(2)])

lemma SharedState_setException_mono:
  assumes "SharedState_setException n a e w = Some x" and "n \<le> m"
  shows "SharedState_setException m a e w = Some x"
  by (rule setException_mono_step [OF _ assms(2,1)]) (rule call_mono [OF _ assms(2)])

section \<open>setContinuation and the operations\<close>

lemma upd_cell_same [simp]: "upd_cell a (\<lambda>c. c\<lparr>m_then := m_then (cells w a)\<rparr>) w = w"
  by (simp add: upd_cell_def)

lemma continuations_then:
  "continuations (upd_cell a (\<lambda>c. c\<lparr>m_then := t\<rparr>) w)
     = (if t = Empty_fn then continuations w - {a} else insert a (continuations w))"
  by (auto simp: continuations_def upd_cell_def)

lemma setContinuation_pending:
  "\<not> m_done (cells w a) \<Longrightarrow>
   setContinuation n a k w =
     (case UniqueFunction_destroy n (m_then (cells w a)) (upd_cell a (\<lambda>c. c\<lparr>m_then := k\<rparr>) w) of
        None \<Rightarrow> None
      | Some w3 \<Rightarrow> Some (Returned (), w3))"
  by (simp add: setContinuation_def swap_fn_def Let_def)

lemma setContinuation_done:
  "m_done (cells w a) \<Longrightarrow>
   setContinuation n a k w =
     (if operator_bool k
      then (case UniqueFunction_call n k w of
              None \<Rightarrow> None
            | Some (Blocked, k2, w2) \<Rightarrow> Some (Blocked, w2)
            | Some (r, k2, w2) \<Rightarrow>
                (case UniqueFunction_destroy n k2 w2 of
                   None \<Rightarrow> None
                 | Some w3 \<Rightarrow> Some (r, w3)))
      else (case UniqueFunction_destroy n k w of
              None \<Rightarrow> None
            | Some w3 \<Rightarrow> Some (Returned (), w3)))"
  by (simp add: setContinuation_def Let_def)

lemma setContinuation_returns:
  fixes w :: "('v, 'u) world"
  assumes fin: "finite (continuations w)"
    and le: "card (continuations w) + (if k = Empty_fn then 0 else 1) \<le> n"
  shows "\<exists>r w'. setContinuation n a k w = Some (r, w')"
proof (cases "m_done (cells w a)")
  case False
  let ?w1 = "upd_cell a (\<lambda>c. c\<lparr>m_then := k\<rparr>) w"
  have fin1: "finite (continuations ?w1)"
    using fin by (simp add: continuations_then)
  have "card (continuations ?w1) + (if m_then (cells w a) = Empty_fn then 0 else 1) \<le> n"
  proof (cases "m_then (cells w a) = Empty_fn")
    case True
    have "card (continuations ?w1) \<le> card (continuations w) + (if k = Empty_fn then 0 else 1)"
      using fin card_insert_le_m1 [of 1 "continuations w" a] card_Diff1_le [of "continuations w" a]
      by (auto simp: continuations_then card_insert_if)
    with True le show ?thesis by simp
  next
    case ne: False
    then have mem: "a \<in> continuations w" by (simp add: continuations_def)
    show ?thesis
    proof (cases "k = Empty_fn")
      case True
      with ne le card_take [OF fin ne] show ?thesis by (simp add: continuations_then)
    next
      case False
      with mem have "continuations ?w1 = continuations w"
        by (auto simp: continuations_then)
      with ne False le show ?thesis by simp
    qed
  qed
  from destroy_returns [OF fin1 this] False show ?thesis
    by (auto simp: setContinuation_pending)
next
  case True
  show ?thesis
  proof (cases "k = Empty_fn")
    case e: True
    with True show ?thesis by (simp add: setContinuation_done operator_bool_def)
  next
    case ne: False
    from UniqueFunction_call_returns [OF fin le] obtain r1 k2 w2
      where c: "UniqueFunction_call n k w = Some (r1, k2, w2)" by blast
    from card_mono_continuations [OF fin continuations_advances [OF UniqueFunction_call_advances [OF c]]]
    have fin2: "finite (continuations w2)" and le2: "card (continuations w2) \<le> card (continuations w)"
      by simp_all
    from le le2 ne have "card (continuations w2) + (if k2 = Empty_fn then 0 else 1) \<le> n"
      by simp
    from destroy_returns [OF fin2 this] obtain w3
      where d: "UniqueFunction_destroy n k2 w2 = Some w3" by blast
    from True ne c d show ?thesis
      by (cases r1) (simp_all add: setContinuation_done operator_bool_def)
  qed
qed

lemma cell_settles_refl: "cell_settles c c"
  by (simp add: cell_settles_def)

lemma cell_settles_trans: "cell_settles c c1 \<Longrightarrow> cell_settles c1 c2 \<Longrightarrow> cell_settles c c2"
  unfolding cell_settles_def by (intro conjI; metis)

lemma cell_advances_settles: "cell_advances c c' \<Longrightarrow> cell_settles c c'"
  by (simp add: cell_advances_def cell_settles_def)

lemma settles_refl: "settles w w"
  by (simp add: settles_def cell_settles_refl)

lemma settles_trans:
  assumes "settles w w1" and "settles w1 w2"
  shows "settles w w2"
  unfolding settles_def
proof (intro conjI allI impI)
  show "next_addr w \<le> next_addr w2"
    using assms by (simp add: settles_def)
next
  fix a
  assume a: "a < next_addr w"
  with assms(1) have 1: "cell_settles (cells w a) (cells w1 a)" and "a < next_addr w1"
    by (auto simp: settles_def)
  with assms(2) have "cell_settles (cells w1 a) (cells w2 a)"
    by (simp add: settles_def)
  with 1 show "cell_settles (cells w a) (cells w2 a)"
    by (rule cell_settles_trans)
qed

lemma advances_settles: "advances w w' \<Longrightarrow> settles w w'"
  by (simp add: advances_def settles_def cell_advances_settles)

lemma settles_then: "settles w (upd_cell a (\<lambda>c. c\<lparr>m_then := t\<rparr>) w)"
  by (simp add: settles_def upd_cell_def cell_settles_def)

lemma settles_retrieved: "settles w (upd_cell a (\<lambda>c. c\<lparr>m_retrieved := True\<rparr>) w)"
  by (simp add: settles_def upd_cell_def cell_settles_def)

lemma settles_Promise_new: "settles w (snd (Promise_new w))"
  by (simp add: settles_def Promise_new_def cell_settles_refl)

lemma destroy_settles: "UniqueFunction_destroy n k w = Some w' \<Longrightarrow> settles w w'"
  by (rule advances_settles [OF cleared_advances [OF destroy_cleared]])

lemma setContinuation_settles:
  assumes "setContinuation n a k w = Some (r, w')"
  shows "settles w w'"
proof (cases "m_done (cells w a)")
  case False
  with assms obtain w3
    where "UniqueFunction_destroy n (m_then (cells w a)) (upd_cell a (\<lambda>c. c\<lparr>m_then := k\<rparr>) w) = Some w3"
      and "w' = w3"
    by (auto simp: setContinuation_pending split: option.splits)
  then have "settles (upd_cell a (\<lambda>c. c\<lparr>m_then := k\<rparr>) w) w'"
    by (simp add: destroy_settles)
  with settles_then show ?thesis by (rule settles_trans)
next
  case True
  show ?thesis
  proof (cases "operator_bool k")
    case False
    with True assms show ?thesis
      by (auto simp: setContinuation_done split: option.splits intro: destroy_settles)
  next
    case ob: True
    with True assms obtain r1 k2 w2 where c: "UniqueFunction_call n k w = Some (r1, k2, w2)"
      by (auto simp: setContinuation_done split: option.splits)
    have s2: "settles w w2"
      by (rule advances_settles [OF UniqueFunction_call_advances [OF c]])
    show ?thesis
    proof (cases r1)
      case Blocked
      with True ob assms c s2 show ?thesis by (simp add: setContinuation_done)
    next
      case (Returned u)
      with True ob assms c obtain w3 where "UniqueFunction_destroy n k2 w2 = Some w3" "w' = w3"
        by (auto simp: setContinuation_done split: option.splits)
      with s2 show ?thesis
        using settles_trans [OF s2 destroy_settles] by simp
    next
      case (Threw e)
      with True ob assms c obtain w3 where "UniqueFunction_destroy n k2 w2 = Some w3" "w' = w3"
        by (auto simp: setContinuation_done split: option.splits)
      with s2 show ?thesis
        using settles_trans [OF s2 destroy_settles] by simp
    qed
  qed
qed

lemma perform_settles:
  assumes "perform n operation w = Some (r, w')"
  shows "settles w w'"
proof (cases operation)
  case Op_Promise_new
  with assms show ?thesis using settles_Promise_new [of w] by auto
next
  case (Op_setValue a v)
  with assms have "SharedState_setValue n a v w = Some (r, w')" by simp
  then show ?thesis by (rule advances_settles [OF SharedState_setValue_advances])
next
  case (Op_setException a e)
  with assms have "SharedState_setException n a e w = Some (r, w')" by simp
  then show ?thesis by (rule advances_settles [OF SharedState_setException_advances])
next
  case (Op_setContinuation a k)
  with assms have "setContinuation n a k w = Some (r, w')" by simp
  then show ?thesis by (rule setContinuation_settles)
next
  case (Op_resetContinuation a)
  with assms have "resetContinuation n a w = Some w'"
    by (cases "resetContinuation n a w") simp_all
  then show ?thesis
    by (rule advances_settles [OF cleared_advances [OF resetContinuation_cleared]])
next
  case (Op_setAndThrowIfRetrieved a)
  with assms show ?thesis
    by (auto simp: setAndThrowIfRetrieved_def Let_def settles_retrieved split: if_splits)
qed

lemma perform_all_settles:
  "perform_all n operations w = Some w' \<Longrightarrow> settles w w'"
proof (induction operations arbitrary: w)
  case Nil
  then show ?case by (simp add: settles_refl)
next
  case (Cons operation operations)
  then obtain r w1 where 1: "perform n operation w = Some (r, w1)"
    and 2: "perform_all n operations w1 = Some w'"
    by (auto split: option.splits)
  from perform_settles [OF 1] Cons.IH [OF 2] show ?case by (rule settles_trans)
qed

section \<open>Future::then ends\<close>

lemma Future_then_valid:
  "Future_then n (Future (Some a)) sz f w =
     (case setContinuation n a
             (UniqueFunction_closure sz (ThenLambda (Some a) (Promise (Some (next_addr w))) f))
             (upd_cell (next_addr w) (\<lambda>c. c\<lparr>m_retrieved := True\<rparr>) (snd (Promise_new w))) of
        None \<Rightarrow> None
      | Some (Returned _, w3) \<Rightarrow> Some (Returned (Future (Some (next_addr w))), Future None, w3)
      | Some (Threw e, w3) \<Rightarrow> Some (Threw e, Future None, w3)
      | Some (Blocked, w3) \<Rightarrow> Some (Blocked, Future None, w3))"
  by (simp add: Future_then_def Promise_new_def Promise_getFuture_def setAndThrowIfRetrieved_def
        Let_def upd_cell_def SharedState_init_def UniqueFunction_move_def)

lemma continuations_Promise_new:
  "continuations (snd (Promise_new w)) = continuations w - {next_addr w}"
  by (auto simp: continuations_def Promise_new_def SharedState_init_def)

lemma Future_then_returns:
  fixes w :: "('v, 'u) world"
  assumes fin: "finite (continuations w)" and le: "card (continuations w) < n"
  shows "\<exists>r w'. Future_then n (Future (Some a)) sz f w = Some (r, Future None, w')"
proof -
  let ?w2 = "upd_cell (next_addr w) (\<lambda>c. c\<lparr>m_retrieved := True\<rparr>) (snd (Promise_new w))"
  let ?k = "UniqueFunction_closure sz (ThenLambda (Some a) (Promise (Some (next_addr w))) f)"
  have c2: "continuations ?w2 = continuations w - {next_addr w}"
    by (simp add: continuations_retrieved continuations_Promise_new)
  have fin2: "finite (continuations ?w2)" using fin c2 by simp
  have "card (continuations ?w2) \<le> card (continuations w)"
    using c2 card_Diff1_le [of "continuations w" "next_addr w"] by simp
  with le have "card (continuations ?w2) + (if ?k = Empty_fn then 0 else 1) \<le> n"
    by simp
  from setContinuation_returns [OF fin2 this, of a] obtain r w3
    where "setContinuation n a ?k ?w2 = Some (r, w3)" by blast
  then show ?thesis
    by (cases r) (simp_all add: Future_then_valid)
qed

section \<open>Completing a cell\<close>

lemma setValue_completes:
  assumes run: "SharedState_setValue n a x w = Some (r, w')" and pend: "\<not> m_done (cells w a)"
  shows "m_done (cells w' a) \<and> m_result (cells w' a) = Some x
       \<and> m_exception (cells w' a) = m_exception (cells w a)"
proof -
  let ?w0 = "upd_cell a (\<lambda>c. c\<lparr>m_result := Some x\<rparr>) w"
  let ?w1 = "upd_cell a (\<lambda>c. c\<lparr>m_done := True, m_then := Empty_fn\<rparr>) ?w0"
  from run pend have "setStateDoneAndNotify n a ?w0 = Some (r, w')"
    by (simp add: checkState_def)
  then have "advances ?w1 w'" by (rule setStateDoneAndNotify_advances)
  then have "cell_advances (cells ?w1 a) (cells w' a)" by (simp add: advances_def)
  then show ?thesis by (simp add: cell_advances_def upd_cell_def)
qed

lemma setException_completes:
  assumes run: "SharedState_setException n a e w = Some (r, w')" and pend: "\<not> m_done (cells w a)"
  shows "m_done (cells w' a) \<and> m_exception (cells w' a) = e
       \<and> m_result (cells w' a) = m_result (cells w a)"
proof -
  let ?w0 = "upd_cell a (\<lambda>c. c\<lparr>m_exception := e\<rparr>) w"
  let ?w1 = "upd_cell a (\<lambda>c. c\<lparr>m_done := True, m_then := Empty_fn\<rparr>) ?w0"
  from run pend have "setStateDoneAndNotify n a ?w0 = Some (r, w')"
    by (simp add: checkState_def)
  then have "advances ?w1 w'" by (rule setStateDoneAndNotify_advances)
  then have "cell_advances (cells ?w1 a) (cells w' a)" by (simp add: advances_def)
  then show ?thesis by (simp add: cell_advances_def upd_cell_def)
qed

lemma settles_done:
  assumes "settles w w'" and "a < next_addr w" and "m_done (cells w a)"
  shows "m_done (cells w' a) \<and> m_result (cells w' a) = m_result (cells w a)
       \<and> m_exception (cells w' a) = m_exception (cells w a)"
  using assms by (auto simp: settles_def cell_settles_def)

lemma advances_next: "advances w w' \<Longrightarrow> next_addr w' = next_addr w"
  by (simp add: advances_def)

section \<open>The test program\<close>

lemma chain_run:
  fixes w :: "('v, 'u) world"
  assumes g: "g (Returned v) (env w) = (o1, u1)"
    and h: "h o1 u1 = (o2, u2)"
    and o1: "o1 \<noteq> Blocked" and o2: "o2 \<noteq> Blocked"
  shows "\<exists>w'. testFutureThenThen (Suc (Suc m)) sizeof_g g sizeof_h h v w = Some (o2, w')
           \<and> env w' = u2"
proof -
  note defs = testFutureThenThen_def Future_then_valid setContinuation_pending
    Promise_new_def Promise_getFuture_def setAndThrowIfRetrieved_def
    SharedState_init_def upd_cell_def Let_def checkState_def operator_bool_def
    UniqueFunction_closure_def Future_get_def SharedState_getValue_def SharedState_wait_def
  show ?thesis
  proof (cases o1)
    case Blocked
    with o1 show ?thesis by simp
  next
    case r1: (Returned y)
    show ?thesis
    proof (cases o2)
      case Blocked
      with o2 show ?thesis by simp
    next
      case (Returned z)
      with g h r1 show ?thesis by (simp add: defs)
    next
      case (Threw e)
      with g h r1 show ?thesis by (simp add: defs)
    qed
  next
    case t1: (Threw e1)
    show ?thesis
    proof (cases o2)
      case Blocked
      with o2 show ?thesis by simp
    next
      case (Returned z)
      with g h t1 show ?thesis by (simp add: defs)
    next
      case (Threw e)
      with g h t1 show ?thesis by (simp add: defs)
    qed
  qed
qed

section \<open>Attaching a continuation\<close>









lemma setException_no_continuation:
  fixes w :: "('v, 'u) world"
  assumes "\<not> m_done (cells w a)" and "m_then (cells w a) = Empty_fn"
  shows "SharedState_setException n a e w =
           Some (Returned (),
                 upd_cell a (\<lambda>c. c\<lparr>m_done := True, m_then := Empty_fn\<rparr>)
                   (upd_cell a (\<lambda>c. c\<lparr>m_exception := e\<rparr>) w))"
  using assms by (simp add: checkState_def Let_def upd_cell_def operator_bool_def)

section \<open>Sequences of calls of a UniqueFunction\<close>

lemma calls_closure:
  "calls app (UniqueFunction_closure sz c) args s =
     (case closure_calls app c args s of
        (rs, c1, s1) \<Rightarrow> (rs, UniqueFunction_closure sz c1, s1))"
  by (induction args arbitrary: c s)
     (auto simp: UniqueFunction_closure_def split: prod.splits)

lemma calls_empty:
  "calls app Empty_fn args s = (map (\<lambda>_. Threw bad_function_call) args, Empty_fn, s)"
  by (induction args) auto

section \<open>broken_promise is never raised\<close>

lemma world_free_env [simp]: "world_free (w\<lparr>env := u\<rparr>) = world_free w"
  by (simp add: world_free_def)

lemma world_free_upd:
  "world_free w \<Longrightarrow> cell_free (g (cells w a)) \<Longrightarrow> world_free (upd_cell a g w)"
  by (simp add: world_free_def upd_cell_def)

lemma world_free_cell: "world_free w \<Longrightarrow> cell_free (cells w a)"
  by (simp add: world_free_def)

lemma world_free_cleared:
  assumes "cleared w w'" and "world_free w"
  shows "world_free w'"
  unfolding world_free_def
proof
  fix a
  from assms(1) have "cells w' a = cells w a \<or> cells w' a = (cells w a)\<lparr>m_then := Empty_fn\<rparr>"
    by (simp add: cleared_def)
  with world_free_cell [OF assms(2), of a] show "cell_free (cells w' a)"
    by (auto simp: cell_free_def)
qed

lemma getValue_free: "world_free w \<Longrightarrow> \<not> is_broken_promise (SharedState_getValue a w)"
  using world_free_cell [of w a]
  by (auto simp: SharedState_getValue_def SharedState_wait_def is_broken_promise_def
        cell_free_def split: option.splits)

lemma Future_get_free: "world_free w \<Longrightarrow> \<not> is_broken_promise (fst (Future_get this w))"
  using getValue_free [of w]
  by (auto simp: Future_get_def is_broken_promise_def split: option.splits)

lemma notify_free:
  fixes w :: "('v, 'u) world"
  assumes call: "\<And>k (w0 :: ('v, 'u) world) r0 k1 w1.
                   world_free w0 \<Longrightarrow> function_free k \<Longrightarrow>
                   UniqueFunction_call n k w0 = Some (r0, k1, w1) \<Longrightarrow>
                   \<not> is_broken_promise r0 \<and> world_free w1"
    and free: "world_free w"
    and run: "setStateDoneAndNotify n a w = Some (r, w')"
  shows "\<not> is_broken_promise r \<and> world_free w'"
proof -
  let ?w1 = "upd_cell a (\<lambda>c. c\<lparr>m_done := True, m_then := Empty_fn\<rparr>) w"
  from world_free_cell [OF free, of a]
  have k: "function_free (m_then (cells w a))" and free1: "world_free ?w1"
    using free by (auto simp: cell_free_def intro: world_free_upd)
  show ?thesis
  proof (cases "operator_bool (m_then (cells w a))")
    case False
    with run free1 show ?thesis by (auto simp: Let_def is_broken_promise_def)
  next
    case True
    with run obtain r1 then1 w2
      where c: "UniqueFunction_call n (m_then (cells w a)) ?w1 = Some (r1, then1, w2)"
      by (auto simp: Let_def split: option.splits)
    from call [OF free1 k c] have r1: "\<not> is_broken_promise r1" and free2: "world_free w2"
      by simp_all
    show ?thesis
    proof (cases r1)
      case Blocked
      with True run c free2 show ?thesis by (auto simp: Let_def is_broken_promise_def)
    next
      case (Returned u)
      with True run c obtain w3 where d: "UniqueFunction_destroy n then1 w2 = Some w3"
        and "w' = w3" "r = r1"
        by (auto simp: Let_def split: option.splits)
      with r1 world_free_cleared [OF destroy_cleared [OF d] free2] show ?thesis by simp
    next
      case (Threw e)
      with True run c obtain w3 where d: "UniqueFunction_destroy n then1 w2 = Some w3"
        and "w' = w3" "r = r1"
        by (auto simp: Let_def split: option.splits)
      with r1 world_free_cleared [OF destroy_cleared [OF d] free2] show ?thesis by simp
    qed
  qed
qed

lemma setValue_free_step:
  fixes w :: "('v, 'u) world"
  assumes call: "\<And>k (w0 :: ('v, 'u) world) r0 k1 w1.
                   world_free w0 \<Longrightarrow> function_free k \<Longrightarrow>
                   UniqueFunction_call n k w0 = Some (r0, k1, w1) \<Longrightarrow>
                   \<not> is_broken_promise r0 \<and> world_free w1"
    and free: "world_free w"
    and run: "SharedState_setValue n a x w = Some (r, w')"
  shows "\<not> is_broken_promise r \<and> world_free w'"
proof (cases "m_done (cells w a)")
  case True
  with run free show ?thesis by (auto simp: checkState_def is_broken_promise_def)
next
  case False
  let ?w0 = "upd_cell a (\<lambda>c. c\<lparr>m_result := Some x\<rparr>) w"
  from False run have n: "setStateDoneAndNotify n a ?w0 = Some (r, w')"
    by (simp add: checkState_def)
  from world_free_cell [OF free, of a] have "world_free ?w0"
    using free by (auto simp: cell_free_def intro: world_free_upd)
  from notify_free [OF call this n] show ?thesis .
qed

lemma setException_free_step:
  fixes w :: "('v, 'u) world"
  assumes call: "\<And>k (w0 :: ('v, 'u) world) r0 k1 w1.
                   world_free w0 \<Longrightarrow> function_free k \<Longrightarrow>
                   UniqueFunction_call n k w0 = Some (r0, k1, w1) \<Longrightarrow>
                   \<not> is_broken_promise r0 \<and> world_free w1"
    and free: "world_free w"
    and e: "e \<noteq> Some (FutureError broken_promise)"
    and run: "SharedState_setException n a e w = Some (r, w')"
  shows "\<not> is_broken_promise r \<and> world_free w'"
proof (cases "m_done (cells w a)")
  case True
  with run free show ?thesis by (auto simp: checkState_def is_broken_promise_def)
next
  case False
  let ?w0 = "upd_cell a (\<lambda>c. c\<lparr>m_exception := e\<rparr>) w"
  from False run have n: "setStateDoneAndNotify n a ?w0 = Some (r, w')"
    by (simp add: checkState_def)
  from world_free_cell [OF free, of a] e have "world_free ?w0"
    using free by (auto simp: cell_free_def intro: world_free_upd)
  from notify_free [OF call this n] show ?thesis .
qed

lemma Promise_setValue_free_step:
  fixes w :: "('v, 'u) world"
  assumes call: "\<And>k (w0 :: ('v, 'u) world) r0 k1 w1.
                   world_free w0 \<Longrightarrow> function_free k \<Longrightarrow>
                   UniqueFunction_call n k w0 = Some (r0, k1, w1) \<Longrightarrow>
                   \<not> is_broken_promise r0 \<and> world_free w1"
    and free: "world_free w"
    and run: "Promise_setValue n q x w = Some (r, w')"
  shows "\<not> is_broken_promise r \<and> world_free w'"
proof (cases q)
  case (Promise sp)
  show ?thesis
  proof (cases sp)
    case None
    with Promise run free show ?thesis by (auto simp: is_broken_promise_def)
  next
    case (Some a)
    with Promise run have "SharedState_setValue n a x w = Some (r, w')" by simp
    from setValue_free_step [OF call free this] show ?thesis .
  qed
qed

lemma Promise_setException_free_step:
  fixes w :: "('v, 'u) world"
  assumes call: "\<And>k (w0 :: ('v, 'u) world) r0 k1 w1.
                   world_free w0 \<Longrightarrow> function_free k \<Longrightarrow>
                   UniqueFunction_call n k w0 = Some (r0, k1, w1) \<Longrightarrow>
                   \<not> is_broken_promise r0 \<and> world_free w1"
    and free: "world_free w"
    and e: "e \<noteq> Some (FutureError broken_promise)"
    and run: "Promise_setException n q e w = Some (r, w')"
  shows "\<not> is_broken_promise r \<and> world_free w'"
proof (cases q)
  case (Promise sp)
  show ?thesis
  proof (cases sp)
    case None
    with Promise run free show ?thesis by (auto simp: is_broken_promise_def)
  next
    case (Some a)
    with Promise run have "SharedState_setException n a e w = Some (r, w')" by simp
    from setException_free_step [OF call free e this] show ?thesis .
  qed
qed

lemma Closure_call_free_step:
  fixes w :: "('v, 'u) world"
  assumes call: "\<And>k (w0 :: ('v, 'u) world) r0 k1 w1.
                   world_free w0 \<Longrightarrow> function_free k \<Longrightarrow>
                   UniqueFunction_call n k w0 = Some (r0, k1, w1) \<Longrightarrow>
                   \<not> is_broken_promise r0 \<and> world_free w1"
    and free: "world_free w"
    and c: "closure_free c"
    and run: "Closure_call n c w = Some (r, c', w')"
  shows "\<not> is_broken_promise r \<and> world_free w'"
proof (cases c)
  case (UserLambda g)
  obtain r1 u where gu: "g (env w) = (r1, u)" by (cases "g (env w)")
  from c UserLambda have "\<not> is_broken_promise (fst (g (env w)))" by simp
  with run UserLambda gu free show ?thesis by auto
next
  case (ThenLambda st q f)
  obtain o1 u where fo: "f (fst (Future_get (Future st) w)) (env w) = (o1, u)"
    by (cases "f (fst (Future_get (Future st) w)) (env w)")
  from c ThenLambda Future_get_free [OF free, of "Future st"]
  have "\<not> is_broken_promise (fst (f (fst (Future_get (Future st) w)) (env w)))"
    by (simp add: fn_free_def)
  with fo have o1: "\<not> is_broken_promise o1" by simp
  have free0: "world_free (w\<lparr>env := u\<rparr>)" using free by simp
  show ?thesis
  proof (cases o1)
    case Blocked
    with run ThenLambda fo free show ?thesis by (auto simp: Let_def is_broken_promise_def)
  next
    case (Threw e)
    with run ThenLambda fo obtain r1
      where s: "Promise_setException n q (Some e) (w\<lparr>env := u\<rparr>) = Some (r1, w')" and "r = r1"
      by (auto simp: Let_def split: option.splits)
    moreover from o1 Threw have "Some e \<noteq> Some (FutureError broken_promise)"
      by (simp add: is_broken_promise_def)
    ultimately show ?thesis
      using Promise_setException_free_step [OF call free0 _ s] by simp
  next
    case (Returned v)
    with run ThenLambda fo obtain r1 w1
      where s1: "Promise_setValue n q v (w\<lparr>env := u\<rparr>) = Some (r1, w1)"
      by (auto simp: Let_def split: option.splits)
    from Promise_setValue_free_step [OF call free0 s1]
    have r1: "\<not> is_broken_promise r1" and free1: "world_free w1" by simp_all
    show ?thesis
    proof (cases r1)
      case (Threw e)
      with run ThenLambda fo Returned s1 obtain r2
        where s: "Promise_setException n q (Some e) w1 = Some (r2, w')" and "r = r2"
        by (auto simp: Let_def split: option.splits)
      moreover from r1 Threw have "Some e \<noteq> Some (FutureError broken_promise)"
        by (simp add: is_broken_promise_def)
      ultimately show ?thesis
        using Promise_setException_free_step [OF call free1 _ s] by simp
    next
      case Blocked
      with run ThenLambda fo Returned s1 free1 show ?thesis
        by (auto simp: Let_def is_broken_promise_def)
    next
      case (Returned x)
      with run ThenLambda fo \<open>o1 = Returned v\<close> s1 free1 show ?thesis
        by (auto simp: Let_def is_broken_promise_def)
    qed
  qed
qed

lemma UniqueFunction_call_free:
  fixes w :: "('v, 'u) world"
  shows "world_free w \<Longrightarrow> function_free k \<Longrightarrow>
         UniqueFunction_call n k w = Some (r, k1, w') \<Longrightarrow>
         \<not> is_broken_promise r \<and> world_free w'"
proof (induction n arbitrary: k w r k1 w')
  case 0
  then show ?case by (cases k) (auto simp: is_broken_promise_def)
next
  case (Suc n)
  show ?case
  proof (cases k)
    case Empty_fn
    with Suc.prems show ?thesis by (auto simp: is_broken_promise_def)
  next
    case (Tiny c)
    with Suc.prems obtain c1 where "Closure_call n c w = Some (r, c1, w')" and "closure_free c"
      by (auto split: option.splits)
    from Closure_call_free_step [OF Suc.IH Suc.prems(1) this(2) this(1)] show ?thesis .
  next
    case (Big c)
    with Suc.prems obtain c1 where "Closure_call n c w = Some (r, c1, w')" and "closure_free c"
      by (auto split: option.splits)
    from Closure_call_free_step [OF Suc.IH Suc.prems(1) this(2) this(1)] show ?thesis .
  qed
qed

lemma SharedState_setValue_free:
  assumes "world_free w" and "SharedState_setValue n a x w = Some (r, w')"
  shows "\<not> is_broken_promise r \<and> world_free w'"
  by (rule setValue_free_step [OF _ assms]) (rule UniqueFunction_call_free)

lemma SharedState_setException_free:
  assumes "world_free w" and "e \<noteq> Some (FutureError broken_promise)"
    and "SharedState_setException n a e w = Some (r, w')"
  shows "\<not> is_broken_promise r \<and> world_free w'"
  by (rule setException_free_step [OF _ assms]) (rule UniqueFunction_call_free)

lemma setContinuation_free:
  assumes free: "world_free w" and k: "function_free k"
    and run: "setContinuation n a k w = Some (r, w')"
  shows "\<not> is_broken_promise r \<and> world_free w'"
proof (cases "m_done (cells w a)")
  case False
  let ?w1 = "upd_cell a (\<lambda>c. c\<lparr>m_then := k\<rparr>) w"
  from False run obtain d: "UniqueFunction_destroy n (m_then (cells w a)) ?w1 = Some w'"
    and "r = Returned ()"
    by (auto simp: setContinuation_pending split: option.splits)
  moreover from world_free_cell [OF free, of a] k have "world_free ?w1"
    using free by (auto simp: cell_free_def intro: world_free_upd)
  ultimately show ?thesis
    using world_free_cleared [OF destroy_cleared [OF d]] by (simp add: is_broken_promise_def)
next
  case True
  show ?thesis
  proof (cases "operator_bool k")
    case False
    with True run obtain d: "UniqueFunction_destroy n k w = Some w'" and "r = Returned ()"
      by (auto simp: setContinuation_done split: option.splits)
    with world_free_cleared [OF destroy_cleared [OF d] free] show ?thesis
      by (simp add: is_broken_promise_def)
  next
    case ob: True
    with True run obtain r1 k2 w2 where c: "UniqueFunction_call n k w = Some (r1, k2, w2)"
      by (auto simp: setContinuation_done split: option.splits)
    from UniqueFunction_call_free [OF free k c]
    have r1: "\<not> is_broken_promise r1" and free2: "world_free w2" by simp_all
    show ?thesis
    proof (cases r1)
      case Blocked
      with True ob run c free2 show ?thesis
        by (simp add: setContinuation_done is_broken_promise_def)
    next
      case (Returned u)
      with True ob run c obtain d: "UniqueFunction_destroy n k2 w2 = Some w'" and "r = r1"
        by (auto simp: setContinuation_done split: option.splits)
      with r1 world_free_cleared [OF destroy_cleared [OF d] free2] show ?thesis by simp
    next
      case (Threw e)
      with True ob run c obtain d: "UniqueFunction_destroy n k2 w2 = Some w'" and "r = r1"
        by (auto simp: setContinuation_done split: option.splits)
      with r1 world_free_cleared [OF destroy_cleared [OF d] free2] show ?thesis by simp
    qed
  qed
qed

lemma world_free_Promise_new: "world_free w \<Longrightarrow> world_free (snd (Promise_new w))"
  by (simp add: world_free_def Promise_new_def cell_free_def SharedState_init_def)

lemma perform_free:
  assumes free: "world_free w" and op: "operation_free operation"
    and run: "perform n operation w = Some (r, w')"
  shows "\<not> is_broken_promise r \<and> world_free w'"
proof (cases operation)
  case Op_Promise_new
  with run world_free_Promise_new [OF free] show ?thesis
    by (auto simp: is_broken_promise_def)
next
  case (Op_setValue a v)
  with run have "SharedState_setValue n a v w = Some (r, w')" by simp
  from SharedState_setValue_free [OF free this] show ?thesis .
next
  case (Op_setException a e)
  with run op have "SharedState_setException n a e w = Some (r, w')"
    and "e \<noteq> Some (FutureError broken_promise)" by simp_all
  from SharedState_setException_free [OF free this(2) this(1)] show ?thesis .
next
  case (Op_setContinuation a k)
  with run op have "setContinuation n a k w = Some (r, w')" and "function_free k" by simp_all
  from setContinuation_free [OF free this(2) this(1)] show ?thesis .
next
  case (Op_resetContinuation a)
  with run have d: "resetContinuation n a w = Some w'" and "r = Returned ()"
    by (cases "resetContinuation n a w"; simp)+
  with world_free_cleared [OF resetContinuation_cleared [OF d] free] show ?thesis
    by (simp add: is_broken_promise_def)
next
  case (Op_setAndThrowIfRetrieved a)
  from world_free_cell [OF free, of a]
  have "world_free (upd_cell a (\<lambda>c. c\<lparr>m_retrieved := True\<rparr>) w)"
    using free by (auto simp: cell_free_def intro: world_free_upd)
  with Op_setAndThrowIfRetrieved run show ?thesis
    by (auto simp: setAndThrowIfRetrieved_def Let_def is_broken_promise_def split: if_splits)
qed

lemma perform_all_free:
  "world_free w \<Longrightarrow> list_all operation_free operations \<Longrightarrow>
   perform_all n operations w = Some w' \<Longrightarrow> world_free w'"
proof (induction operations arbitrary: w)
  case Nil
  then show ?case by simp
next
  case (Cons operation operations)
  from Cons.prems obtain r w1 where 1: "perform n operation w = Some (r, w1)"
    and 2: "perform_all n operations w1 = Some w'"
    by (auto split: option.splits)
  from Cons.prems perform_free [OF Cons.prems(1) _ 1] have "world_free w1" by simp
  from Cons.IH [OF this _ 2] Cons.prems(2) show ?case by simp
qed

section \<open>What holds in every world that the operations reach\<close>

text \<open>
  The theorems below speak of worlds in which finitely many cells hold a continuation
  and a pending cell holds neither result nor exception. The first world is such a world
  and every operation keeps it so.
\<close>

lemma cell_ok_advances: "cell_advances c c' \<Longrightarrow> cell_ok c \<Longrightarrow> cell_ok c'"
  by (auto simp: cell_advances_def cell_ok_def)

lemma world_ok_advances:
  "advances w w' \<Longrightarrow> \<forall>a. cell_ok (cells w a) \<Longrightarrow> \<forall>a. cell_ok (cells w' a)"
  by (auto simp: advances_def intro: cell_ok_advances)

lemma world_ok_then:
  "\<forall>a. cell_ok (cells w a) \<Longrightarrow> \<forall>b. cell_ok (cells (upd_cell a (\<lambda>c. c\<lparr>m_then := t\<rparr>) w) b)"
  by (simp add: upd_cell_def cell_ok_def)

lemma setContinuation_invariants:
  fixes w :: "('v, 'u) world"
  assumes run: "setContinuation n a k w = Some (r, w')"
    and fin: "finite (continuations w)" and ok: "\<forall>a. cell_ok (cells w a)"
  shows "finite (continuations w') \<and> (\<forall>a. cell_ok (cells w' a))"
proof (cases "m_done (cells w a)")
  case False
  let ?w1 = "upd_cell a (\<lambda>c. c\<lparr>m_then := k\<rparr>) w"
  from False run have d: "UniqueFunction_destroy n (m_then (cells w a)) ?w1 = Some w'"
    by (auto simp: setContinuation_pending split: option.splits)
  have adv: "advances ?w1 w'" by (rule cleared_advances [OF destroy_cleared [OF d]])
  have "finite (continuations ?w1)" using fin by (simp add: continuations_then)
  from card_mono_continuations [OF this continuations_advances [OF adv]]
    world_ok_advances [OF adv world_ok_then [OF ok]]
  show ?thesis by simp
next
  case True
  show ?thesis
  proof (cases "operator_bool k")
    case False
    with True run have d: "UniqueFunction_destroy n k w = Some w'"
      by (auto simp: setContinuation_done split: option.splits)
    have adv: "advances w w'" by (rule cleared_advances [OF destroy_cleared [OF d]])
    from card_mono_continuations [OF fin continuations_advances [OF adv]]
      world_ok_advances [OF adv ok]
    show ?thesis by simp
  next
    case ob: True
    with True run obtain r1 k2 w2 where c: "UniqueFunction_call n k w = Some (r1, k2, w2)"
      by (auto simp: setContinuation_done split: option.splits)
    have adv2: "advances w w2" by (rule UniqueFunction_call_advances [OF c])
    have "advances w w'"
    proof (cases r1)
      case Blocked
      with True ob run c adv2 show ?thesis by (simp add: setContinuation_done)
    next
      case (Returned u)
      with True ob run c have d: "UniqueFunction_destroy n k2 w2 = Some w'"
        by (auto simp: setContinuation_done split: option.splits)
      from adv2 cleared_advances [OF destroy_cleared [OF d]] show ?thesis
        by (rule advances_trans)
    next
      case (Threw e)
      with True ob run c have d: "UniqueFunction_destroy n k2 w2 = Some w'"
        by (auto simp: setContinuation_done split: option.splits)
      from adv2 cleared_advances [OF destroy_cleared [OF d]] show ?thesis
        by (rule advances_trans)
    qed
    from card_mono_continuations [OF fin continuations_advances [OF this]]
      world_ok_advances [OF this ok]
    show ?thesis by simp
  qed
qed

lemma perform_invariants:
  fixes w :: "('v, 'u) world"
  assumes run: "perform n operation w = Some (r, w')"
    and fin: "finite (continuations w)" and ok: "\<forall>a. cell_ok (cells w a)"
  shows "finite (continuations w') \<and> (\<forall>a. cell_ok (cells w' a))"
proof -
  have from_advances: ?thesis if "advances w w'"
    using card_mono_continuations [OF fin continuations_advances [OF that]]
      world_ok_advances [OF that ok]
    by simp
  show ?thesis
  proof (cases operation)
    case Op_Promise_new
    with run have w': "w' = snd (Promise_new w)" by simp
    have "finite (continuations w')"
      using fin unfolding w' by (simp add: continuations_Promise_new)
    moreover have "\<forall>a. cell_ok (cells w' a)"
      using ok unfolding w' by (simp add: Promise_new_def cell_ok_def SharedState_init_def)
    ultimately show ?thesis by simp
  next
    case (Op_setValue a v)
    with run have "SharedState_setValue n a v w = Some (r, w')" by simp
    then show ?thesis by (rule from_advances [OF SharedState_setValue_advances])
  next
    case (Op_setException a e)
    with run have "SharedState_setException n a e w = Some (r, w')" by simp
    then show ?thesis by (rule from_advances [OF SharedState_setException_advances])
  next
    case (Op_setContinuation a k)
    with run have "setContinuation n a k w = Some (r, w')" by simp
    from setContinuation_invariants [OF this fin ok] show ?thesis .
  next
    case (Op_resetContinuation a)
    with run have "resetContinuation n a w = Some w'"
      by (cases "resetContinuation n a w") simp_all
    then show ?thesis
      by (rule from_advances [OF cleared_advances [OF resetContinuation_cleared]])
  next
    case (Op_setAndThrowIfRetrieved a)
    with run have w': "w' = upd_cell a (\<lambda>c. c\<lparr>m_retrieved := True\<rparr>) w"
      by (auto simp: setAndThrowIfRetrieved_def Let_def split: if_splits)
    have "finite (continuations w')"
      using fin unfolding w' by (simp add: continuations_retrieved)
    moreover have "\<forall>a. cell_ok (cells w' a)"
      using ok unfolding w' by (simp add: upd_cell_def cell_ok_def)
    ultimately show ?thesis by simp
  qed
qed

lemma world_init_invariants:
  "finite (continuations (world_init u)) \<and> (\<forall>a. cell_ok (cells (world_init u) a))
   \<and> world_free (world_init u)"
  by (simp add: continuations_def world_init_def SharedState_init_def cell_ok_def
        world_free_def cell_free_def)

lemma perform_all_invariants:
  fixes w :: "('v, 'u) world"
  shows "perform_all n operations w = Some w' \<Longrightarrow>
         finite (continuations w) \<Longrightarrow> \<forall>a. cell_ok (cells w a) \<Longrightarrow>
         finite (continuations w') \<and> (\<forall>a. cell_ok (cells w' a))"
proof (induction operations arbitrary: w)
  case Nil
  then show ?case by simp
next
  case (Cons operation operations)
  from Cons.prems(1) obtain r w1 where 1: "perform n operation w = Some (r, w1)"
    and 2: "perform_all n operations w1 = Some w'"
    by (auto split: option.splits)
  from perform_invariants [OF 1 Cons.prems(2,3)]
  have "finite (continuations w1)" "\<forall>a. cell_ok (cells w1 a)" by simp_all
  from Cons.IH [OF 2 this] show ?case .
qed

text \<open>
  The call operator of a \<^verbatim>\<open>UniqueFunction<void()>\<close> in a cell is \<open>operator_call\<close> over
  the body of the closure.
\<close>

lemma UniqueFunction_call_operator_call:
  assumes "\<And>c. Closure_call n c w = Some (app c () w)"
  shows "UniqueFunction_call (Suc n) k w = Some (operator_call app k () w)"
  using assms by (cases k) (auto split: prod.splits)

text \<open>
  The two \<^verbatim>\<open>getValue\<close> agree on every cell but a done one without result and without
  exception, which only \<^verbatim>\<open>setException\<close> with a null \<^verbatim>\<open>exception_ptr\<close> leaves behind.
\<close>

lemma SharedState_void_getValue_agrees:
  assumes "m_done (cells w a) \<longrightarrow> m_exception (cells w a) \<noteq> None \<or> m_result (cells w a) \<noteq> None"
  shows "SharedState_void_getValue a w = SharedState_getValue a w"
  using assms
  by (auto simp: SharedState_void_getValue_def SharedState_getValue_def SharedState_wait_def
        split: option.splits)

text \<open>What the handles do to a world is a sequence of the operations on cells.\<close>

lemma Promise_setValue_perform:
  "Promise_setValue n (Promise (Some a)) v w = perform n (Op_setValue a v) w"
  by simp

lemma Promise_setException_perform:
  "Promise_setException n (Promise (Some a)) e w = perform n (Op_setException a e) w"
  by simp

lemma Promise_getFuture_perform:
  "Some (snd (Promise_getFuture (Promise (Some a)) w))
     = perform_all n [Op_setAndThrowIfRetrieved a] w"
  by (simp add: Promise_getFuture_def setAndThrowIfRetrieved_def Let_def)

lemma Promise_destroy_perform:
  "Promise_destroy n (Promise (Some a)) w = perform_all n [Op_resetContinuation a] w"
  by (cases "resetContinuation n a w") simp_all

lemma Future_then_perform:
  assumes "Future_then n (Future (Some a)) sz f w = Some (r, this, w')"
  shows "perform_all n
           [Op_Promise_new, Op_setAndThrowIfRetrieved (next_addr w),
            Op_setContinuation a
              (UniqueFunction_closure sz (ThenLambda (Some a) (Promise (Some (next_addr w))) f))]
           w = Some w'"
proof -
  let ?w2 = "upd_cell (next_addr w) (\<lambda>c. c\<lparr>m_retrieved := True\<rparr>) (snd (Promise_new w))"
  let ?k = "UniqueFunction_closure sz (ThenLambda (Some a) (Promise (Some (next_addr w))) f)"
  from assms obtain r0 where "setContinuation n a ?k ?w2 = Some (r0, w')"
    by (auto simp: Future_then_valid split: option.splits outcome.splits)
  then show ?thesis
    by (simp add: setAndThrowIfRetrieved_def Let_def)
qed

section \<open>The claims\<close>

subsection \<open>Setting a value once\<close>

text \<open>
  Claim C1. On an allocated cell that holds nothing yet, once \<^verbatim>\<open>setValue(x)\<close> has
  returned, then after any further operations on any cells every \<^verbatim>\<open>setValue(y)\<close> and
  every \<^verbatim>\<open>setException(e)\<close> on the cell throws \<^verbatim>\<open>promise_already_satisfied\<close> and leaves
  the world as it is, and \<^verbatim>\<open>getValue()\<close> returns \<open>x\<close>; for every value type.
\<close>

theorem setValue_only_once:
  fixes w :: "('v, 'u) world"
  assumes alloc: "a < next_addr w"
    and ok: "cell_ok (cells w a)"
    and first: "SharedState_setValue n a x w = Some (Returned (), w1)"
    and later: "perform_all k operations w1 = Some w2"
  shows "SharedState_setValue m a y w2
           = Some (Threw (FutureError promise_already_satisfied), w2)
       \<and> SharedState_setException m a e w2
           = Some (Threw (FutureError promise_already_satisfied), w2)
       \<and> SharedState_getValue a w2 = Returned x"
proof -
  have pend: "\<not> m_done (cells w a)"
  proof
    assume "m_done (cells w a)"
    with first show False by (simp add: checkState_def)
  qed
  from setValue_completes [OF first pend] pend ok
  have 1: "m_done (cells w1 a)" "m_result (cells w1 a) = Some x" "m_exception (cells w1 a) = None"
    by (simp_all add: cell_ok_def)
  from alloc advances_next [OF SharedState_setValue_advances [OF first]]
  have "a < next_addr w1" by simp
  from settles_done [OF perform_all_settles [OF later] this 1(1)] 1
  have "m_done (cells w2 a)" "m_result (cells w2 a) = Some x" "m_exception (cells w2 a) = None"
    by simp_all
  then show ?thesis
    by (simp add: checkState_def SharedState_getValue_def SharedState_wait_def)
qed

theorem setValue_only_once_witness:
  "\<exists>w1 w2.
      SharedState_setValue 0 0 42 (snd (Promise_new (world_init () :: (int, unit) world)))
        = Some (Returned (), w1)
    \<and> perform_all 0 [Op_Promise_new, Op_setAndThrowIfRetrieved 0] w1 = Some w2
    \<and> SharedState_setValue 0 0 7 w2 = Some (Threw (FutureError promise_already_satisfied), w2)
    \<and> SharedState_setException 0 0 (Some bad_function_call) w2
        = Some (Threw (FutureError promise_already_satisfied), w2)
    \<and> SharedState_getValue 0 w2 = Returned 42"
proof -
  let ?w = "snd (Promise_new (world_init () :: (int, unit) world))"
  let ?w1 = "upd_cell 0 (\<lambda>c. c\<lparr>m_done := True, m_then := Empty_fn\<rparr>)
               (upd_cell 0 (\<lambda>c. c\<lparr>m_result := Some 42\<rparr>) ?w)"
  let ?w2 = "snd (setAndThrowIfRetrieved 0 (snd (Promise_new ?w1)))"
  have alloc: "0 < next_addr ?w" and ok: "cell_ok (cells ?w 0)"
    by (simp_all add: Promise_new_def world_init_def SharedState_init_def cell_ok_def)
  have first: "SharedState_setValue 0 0 42 ?w = Some (Returned (), ?w1)"
    by (simp add: Promise_new_def world_init_def SharedState_init_def checkState_def
          operator_bool_def upd_cell_def Let_def)
  have later: "perform_all 0 [Op_Promise_new, Op_setAndThrowIfRetrieved 0] ?w1 = Some ?w2"
    by (simp add: setAndThrowIfRetrieved_def Let_def)
  from setValue_only_once [OF alloc ok first later, where m = 0 and y = 7
        and e = "Some bad_function_call"] first later
  show ?thesis by blast
qed

subsection \<open>Chaining\<close>

text \<open>
  Claim C2, as the code has it. After \<^verbatim>\<open>promise.getFuture().then(g).then(h)\<close> and
  \<^verbatim>\<open>promise.setValue(v)\<close>, with \<open>g\<close> and \<open>h\<close> returning or throwing and a bound of at
  least two: \<open>g\<close> runs on a future whose \<^verbatim>\<open>get()\<close> returns \<open>v\<close>; \<open>h\<close> runs, always, on a
  future whose \<^verbatim>\<open>get()\<close> gives what \<open>g\<close> gave, its value or the exception it threw; and
  \<^verbatim>\<open>get()\<close> on the last future gives what \<open>h\<close> gave. When \<open>h\<close> takes its argument by
  \<^verbatim>\<open>get()\<close>, it goes on with the value of \<open>g\<close>, and when \<open>g\<close> threw, \<open>h\<close> is left by that
  exception before the rest of it runs, so the last \<^verbatim>\<open>get()\<close> throws the exception of
  \<open>g\<close>.
\<close>

theorem then_then_result:
  fixes w :: "('v, 'u) world"
  assumes bound: "2 \<le> n"
    and g: "g (Returned v) (env w) = (o1, u1)"
    and h: "h o1 u1 = (o2, u2)"
    and o1: "o1 \<noteq> Blocked" and o2: "o2 \<noteq> Blocked"
  shows "(\<exists>w'. testFutureThenThen n sizeof_g g sizeof_h h v w = Some (o2, w') \<and> env w' = u2)
       \<and> (\<forall>body y. h = via_get body \<longrightarrow> o1 = Returned y \<longrightarrow> (o2, u2) = body y u1)
       \<and> (\<forall>body e. h = via_get body \<longrightarrow> o1 = Threw e \<longrightarrow> o2 = Threw e \<and> u2 = u1)"
proof -
  from bound obtain m where "n = Suc (Suc m)"
    by (metis add_2_eq_Suc le_Suc_ex)
  with chain_run [where g = g and h = h and v = v and w = w and ?o1.0 = o1 and ?u1.0 = u1
      and ?o2.0 = o2 and ?u2.0 = u2, OF g h o1 o2]
  have "\<exists>w'. testFutureThenThen n sizeof_g g sizeof_h h v w = Some (o2, w') \<and> env w' = u2"
    by simp
  moreover have "(o2, u2) = body y u1" if "h = via_get body" "o1 = Returned y" for body y
    using that h by (simp add: via_get_def)
  moreover have "o2 = Threw e \<and> u2 = u1" if "h = via_get body" "o1 = Threw e" for body e
    using that h by (simp add: via_get_def)
  ultimately show ?thesis by blast
qed

theorem then_then_result_witness:
  "(\<exists>w'. testFutureThenThen 2 40 (via_get (\<lambda>x u. (Returned (x * 2), u)))
             40 (via_get (\<lambda>x u. (Returned (x * 2), u))) 42
             (world_init () :: (int, unit) world)
           = Some (Returned 168, w'))
   \<and> (\<exists>w'. testFutureThenThen 2 40 (throwing bad_optional_access)
             40 (via_get (\<lambda>x u. (Returned (x * 2), Suc u))) 42
             (world_init 0 :: (int, nat) world)
           = Some (Threw bad_optional_access, w') \<and> env w' = 0)"
proof -
  have 1: "\<exists>w'. testFutureThenThen 2 40 (via_get (\<lambda>x u. (Returned (x * 2), u)))
             40 (via_get (\<lambda>x u. (Returned (x * 2), u))) 42
             (world_init () :: (int, unit) world)
           = Some (Returned 168, w')"
    using then_then_result [of 2 "via_get (\<lambda>x u. (Returned (x * 2), u))" 42
        "world_init () :: (int, unit) world" "Returned 84" "()"
        "via_get (\<lambda>x u. (Returned (x * 2), u))" "Returned 168" "()" 40 40]
    by (simp add: via_get_def world_init_def)
  have 2: "\<exists>w'. testFutureThenThen 2 40 (throwing bad_optional_access)
             40 (via_get (\<lambda>x u. (Returned (x * 2), Suc u))) 42
             (world_init 0 :: (int, nat) world)
           = Some (Threw bad_optional_access, w') \<and> env w' = 0"
    using then_then_result [of 2 "throwing bad_optional_access" 42
        "world_init 0 :: (int, nat) world" "Threw bad_optional_access" 0
        "via_get (\<lambda>x u. (Returned (x * 2), Suc u))" "Threw bad_optional_access" 0 40 40]
    by (simp add: via_get_def throwing_def world_init_def)
  from 1 2 show ?thesis by blast
qed

text \<open>
  The claim as the specification has it fails: with a \<open>g\<close> that throws and an \<open>h\<close> that
  does not look at its future, \<open>h\<close> runs all the same and \<^verbatim>\<open>get()\<close> on the last future
  returns the value of \<open>h\<close>.
\<close>

theorem then_then_counterexample:
  "map_option fst
     (testFutureThenThen (Suc (Suc 0))
        40 (throwing (user_exception ''std::logic_error'' ''Task failed!''))
        40 (ignoring 7) 42
        (world_init () :: (int, unit) world))
   = Some (Returned 7)"
  by (simp add: testFutureThenThen_def Future_then_valid setContinuation_pending
        Promise_new_def Promise_getFuture_def setAndThrowIfRetrieved_def world_init_def
        SharedState_init_def upd_cell_def Let_def checkState_def operator_bool_def
        UniqueFunction_closure_def IsSmall_def s_TinyStorageMaxCapacity_def
        Future_get_def SharedState_getValue_def SharedState_wait_def throwing_def ignoring_def)

subsection \<open>Attaching a continuation\<close>




subsection \<open>Round trip\<close>

text \<open>
  Claim C4. For a fresh promise, \<^verbatim>\<open>setValue(v)\<close> then \<^verbatim>\<open>getFuture()\<close> then \<^verbatim>\<open>get()\<close>
  returns \<open>v\<close>, and so does \<^verbatim>\<open>getFuture()\<close> then \<^verbatim>\<open>setValue(v)\<close> then \<^verbatim>\<open>get()\<close>; in
  particular for \<open>v = 42\<close>. No call of the sequence needs a continuation, so every bound
  \<open>n\<close> is enough.
\<close>

theorem round_trip:
  "(\<exists>promise w0 w1 w2 future.
      Promise_new w = (promise, w0)
    \<and> Promise_setValue n promise v w0 = Some (Returned (), w1)
    \<and> Promise_getFuture promise w1 = (Returned future, w2)
    \<and> fst (Future_get future w2) = Returned v)
   \<and>
   (\<exists>promise w0 w1 w2 future.
      Promise_new w = (promise, w0)
    \<and> Promise_getFuture promise w0 = (Returned future, w1)
    \<and> Promise_setValue n promise v w1 = Some (Returned (), w2)
    \<and> fst (Future_get future w2) = Returned v)"
  by (simp add: Promise_new_def Promise_getFuture_def setAndThrowIfRetrieved_def upd_cell_def
        Let_def checkState_def SharedState_init_def operator_bool_def Future_get_def
        SharedState_getValue_def SharedState_wait_def)

theorem round_trip_witness:
  "\<exists>promise w0 w1 w2 future.
      Promise_new (world_init () :: (int, unit) world) = (promise, w0)
    \<and> Promise_setValue 0 promise 42 w0 = Some (Returned (), w1)
    \<and> Promise_getFuture promise w1 = (Returned future, w2)
    \<and> fst (Future_get future w2) = Returned 42"
  using round_trip [of "world_init () :: (int, unit) world" 0 42]
  by blast

subsection \<open>Exceptions\<close>

text \<open>
  Claim C5. \<^verbatim>\<open>setException(e)\<close> on an allocated pending cell ends, when the bound covers
  the stored continuations, and from then on, after any further operations, \<^verbatim>\<open>get()\<close> on
  a \<^verbatim>\<open>Future\<close> and on a \<^verbatim>\<open>SharedFuture\<close> over the cell throws \<open>e\<close> itself.
\<close>

theorem exception_propagation:
  fixes w :: "('v, 'u) world"
  assumes alloc: "a < next_addr w"
    and pend: "\<not> m_done (cells w a)"
    and fin: "finite (continuations w)"
    and le: "card (continuations w) \<le> n"
  shows "\<exists>r w1. SharedState_setException n a (Some e) w = Some (r, w1)
           \<and> (\<forall>k operations w2. perform_all k operations w1 = Some w2 \<longrightarrow>
                  fst (Future_get (Future (Some a)) w2) = Threw e
                \<and> fst (SharedFuture_get (SharedFuture (Some a)) w2) = Threw e)"
proof -
  from SharedState_setException_returns [OF fin le] obtain r w1
    where run: "SharedState_setException n a (Some e) w = Some (r, w1)" by blast
  from setException_completes [OF run pend]
  have 1: "m_done (cells w1 a)" "m_exception (cells w1 a) = Some e" by simp_all
  from alloc advances_next [OF SharedState_setException_advances [OF run]]
  have a1: "a < next_addr w1" by simp
  have "fst (Future_get (Future (Some a)) w2) = Threw e
      \<and> fst (SharedFuture_get (SharedFuture (Some a)) w2) = Threw e"
    if "perform_all k operations w1 = Some w2" for k operations w2
  proof -
    from settles_done [OF perform_all_settles [OF that] a1 1(1)] 1
    have "m_done (cells w2 a)" "m_exception (cells w2 a) = Some e" by simp_all
    then show ?thesis
      by (simp add: Future_get_def SharedFuture_get_def SharedState_getValue_def
            SharedState_wait_def)
  qed
  with run show ?thesis by blast
qed

theorem exception_propagation_witness:
  "\<exists>r w1.
      SharedState_setException 0 0 (Some (user_exception ''std::logic_error'' ''Task failed!''))
          (snd (Promise_new (world_init () :: (int, unit) world)))
        = Some (r, w1)
    \<and> fst (Future_get (Future (Some 0)) w1)
        = Threw (user_exception ''std::logic_error'' ''Task failed!'')
    \<and> fst (SharedFuture_get (SharedFuture (Some 0)) w1)
        = Threw (user_exception ''std::logic_error'' ''Task failed!'')"
proof -
  let ?w = "snd (Promise_new (world_init () :: (int, unit) world))"
  have alloc: "0 < next_addr ?w" and pend: "\<not> m_done (cells ?w 0)"
    by (simp_all add: Promise_new_def world_init_def SharedState_init_def)
  have empty: "continuations ?w = {}"
    by (simp add: continuations_def Promise_new_def world_init_def SharedState_init_def)
  then have fin: "finite (continuations ?w)" and le: "card (continuations ?w) \<le> 0"
    by simp_all
  from exception_propagation [OF alloc pend fin le,
      of "user_exception ''std::logic_error'' ''Task failed!''"]
  obtain r w1
    where "SharedState_setException 0 0 (Some (user_exception ''std::logic_error'' ''Task failed!'')) ?w
             = Some (r, w1)"
      and "\<forall>k operations w2. perform_all k operations w1 = Some w2 \<longrightarrow>
                  fst (Future_get (Future (Some 0)) w2)
                    = Threw (user_exception ''std::logic_error'' ''Task failed!'')
                \<and> fst (SharedFuture_get (SharedFuture (Some 0)) w2)
                    = Threw (user_exception ''std::logic_error'' ''Task failed!'')"
    by blast
  moreover have "perform_all 0 [] w1 = Some w1" by simp
  ultimately show ?thesis by blast
qed

subsection \<open>Retrieving the future\<close>

text \<open>
  Claim C6. On a promise whose cell is allocated and has not handed out a future yet (as
  after the constructor), the first \<^verbatim>\<open>getFuture()\<close> returns a future over the promise's
  cell, and a second \<^verbatim>\<open>getFuture()\<close>, at once or after any further operations, throws
  \<^verbatim>\<open>future_already_retrieved\<close>; for every value type.
\<close>

theorem getFuture_twice:
  fixes w :: "('v, 'u) world"
  assumes alloc: "a < next_addr w" and fresh: "\<not> m_retrieved (cells w a)"
  shows "\<exists>w1. Promise_getFuture (Promise (Some a)) w = (Returned (Future (Some a)), w1)
           \<and> (\<forall>k operations w2. perform_all k operations w1 = Some w2 \<longrightarrow>
                 fst (Promise_getFuture (Promise (Some a)) w2)
                   = Threw (FutureError future_already_retrieved))"
proof -
  let ?w1 = "upd_cell a (\<lambda>c. c\<lparr>m_retrieved := True\<rparr>) w"
  from fresh have 1: "Promise_getFuture (Promise (Some a)) w = (Returned (Future (Some a)), ?w1)"
    by (simp add: Promise_getFuture_def setAndThrowIfRetrieved_def Let_def)
  have "fst (Promise_getFuture (Promise (Some a)) w2)
          = Threw (FutureError future_already_retrieved)"
    if "perform_all k operations ?w1 = Some w2" for k operations w2
  proof -
    from perform_all_settles [OF that] alloc
    have "cell_settles (cells ?w1 a) (cells w2 a)"
      by (auto simp: settles_def upd_cell_def)
    then have "m_retrieved (cells w2 a)"
      by (simp add: cell_settles_def upd_cell_def)
    then show ?thesis
      by (simp add: Promise_getFuture_def setAndThrowIfRetrieved_def Let_def)
  qed
  with 1 show ?thesis by blast
qed

theorem getFuture_twice_witness:
  "\<exists>w1. Promise_getFuture (Promise (Some 0))
             (snd (Promise_new (world_init () :: (int, unit) world)))
           = (Returned (Future (Some 0)), w1)
        \<and> fst (Promise_getFuture (Promise (Some 0)) w1)
            = Threw (FutureError future_already_retrieved)"
proof -
  let ?w = "snd (Promise_new (world_init () :: (int, unit) world))"
  have alloc: "0 < next_addr ?w" and fresh: "\<not> m_retrieved (cells ?w 0)"
    by (simp_all add: Promise_new_def world_init_def SharedState_init_def)
  from getFuture_twice [OF alloc fresh] obtain w1
    where "Promise_getFuture (Promise (Some 0)) ?w = (Returned (Future (Some 0)), w1)"
      and "\<forall>k operations w2. perform_all k operations w1 = Some w2 \<longrightarrow>
                 fst (Promise_getFuture (Promise (Some 0)) w2)
                   = Threw (FutureError future_already_retrieved)"
    by blast
  moreover have "perform_all 0 [] w1 = Some w1" by simp
  ultimately show ?thesis by blast
qed

subsection \<open>Validity of a future\<close>

text \<open>
  Claim C7. On a valid future, \<^verbatim>\<open>get()\<close>, \<^verbatim>\<open>share()\<close> and \<^verbatim>\<open>then()\<close> leave the future
  invalid and \<^verbatim>\<open>wait()\<close> leaves it valid; \<^verbatim>\<open>then()\<close> ends when the bound covers the stored
  continuations. On a future without a cell, \<^verbatim>\<open>get()\<close>, \<^verbatim>\<open>wait()\<close> and \<^verbatim>\<open>then()\<close> throw
  \<^verbatim>\<open>no_state\<close>. A default-constructed future and a consumed one have no cell.
\<close>

theorem handle_validity:
  fixes w :: "('v, 'u) world"
  assumes valid: "Future_valid this"
    and fin: "finite (continuations w)"
    and le: "card (continuations w) < n"
  shows "\<not> Future_valid (snd (Future_get this w))
       \<and> \<not> Future_valid (snd (Future_share this))
       \<and> (\<exists>r this' w'. Future_then n this sz f w = Some (r, this', w') \<and> \<not> Future_valid this')
       \<and> Future_valid (snd (Future_wait this w))
       \<and> \<not> Future_valid Future_default
       \<and> (\<forall>that. \<not> Future_valid that \<longrightarrow>
             fst (Future_get that w) = Threw (FutureError no_state)
           \<and> fst (Future_wait that w) = Threw (FutureError no_state)
           \<and> Future_then n that sz f w = Some (Threw (FutureError no_state), that, w))"
proof -
  from valid obtain a where eq: "this = Future (Some a)"
    by (cases this) (auto simp: Future_valid_def)
  from Future_then_returns [OF fin le, of a sz f] eq
  have "\<exists>r this' w'. Future_then n this sz f w = Some (r, this', w') \<and> \<not> Future_valid this'"
    by (auto simp: Future_valid_def)
  moreover have "\<not> Future_valid (snd (Future_get this w))"
    "\<not> Future_valid (snd (Future_share this))"
    "Future_valid (snd (Future_wait this w))"
    "\<not> Future_valid Future_default"
    using eq
    by (simp_all add: Future_valid_def Future_get_def Future_share_def Future_wait_def
          Future_default_def)
  moreover have "fst (Future_get that w) = Threw (FutureError no_state)
           \<and> fst (Future_wait that w) = Threw (FutureError no_state)
           \<and> Future_then n that sz f w = Some (Threw (FutureError no_state), that, w)"
    if "\<not> Future_valid that" for that
    using that
    by (simp add: Future_valid_def Future_get_def Future_wait_def Future_then_def)
  ultimately show ?thesis by blast
qed

theorem handle_validity_witness:
  "Future_valid (Future (Some 0))
   \<and> \<not> Future_valid (snd (Future_get (Future (Some 0))
          (snd (Promise_new (world_init () :: (int, unit) world)))))
   \<and> \<not> Future_valid (snd (Future_share (Future (Some 0))))
   \<and> (\<exists>r this' w'.
         Future_then (Suc 0) (Future (Some 0)) 40 (\<lambda>r u. (r, u))
             (snd (Promise_new (world_init () :: (int, unit) world)))
           = Some (r, this', w')
         \<and> \<not> Future_valid this')
   \<and> fst (Future_get Future_default (snd (Promise_new (world_init () :: (int, unit) world))))
       = Threw (FutureError no_state)"
proof -
  let ?w = "snd (Promise_new (world_init () :: (int, unit) world))"
  have valid: "Future_valid (Future (Some 0))" by (simp add: Future_valid_def)
  have empty: "continuations ?w = {}"
    by (simp add: continuations_def Promise_new_def world_init_def SharedState_init_def)
  then have fin: "finite (continuations ?w)" and le: "card (continuations ?w) < Suc 0"
    by simp_all
  have "\<not> Future_valid Future_default \<Longrightarrow>
        fst (Future_get Future_default ?w) = Threw (FutureError no_state)"
    using handle_validity [OF valid fin le, of 40 "\<lambda>r u. (r, u)"] by blast
  with handle_validity [OF valid fin le, of 40 "\<lambda>r u. (r, u)"] valid
  show ?thesis by blast
qed

subsection \<open>Destroying a promise\<close>

text \<open>
  Claim C8. Let the bound cover the stored continuations. \<^verbatim>\<open>~Promise\<close> on a promise that
  owns its cell ends and leaves the cell without a continuation; it runs no user code, it
  completes no cell and changes no result and no exception, so that \<^verbatim>\<open>get()\<close> on a future
  over a cell that was pending still waits. And \<^verbatim>\<open>broken_promise\<close> is never raised: when
  user code does not bring it in, then after the destruction and any further operations,
  no operation throws it and no \<^verbatim>\<open>get()\<close> throws it.
\<close>

theorem Promise_destroy_discards:
  fixes w :: "('v, 'u) world"
  assumes fin: "finite (continuations w)" and le: "card (continuations w) \<le> n"
  shows "\<exists>w1. Promise_destroy n (Promise (Some a)) w = Some w1
           \<and> m_then (cells w1 a) = Empty_fn
           \<and> env w1 = env w
           \<and> (\<forall>b. m_done (cells w1 b) = m_done (cells w b)
                  \<and> m_result (cells w1 b) = m_result (cells w b)
                  \<and> m_exception (cells w1 b) = m_exception (cells w b))
           \<and> (\<forall>b. \<not> m_done (cells w b) \<longrightarrow> fst (Future_get (Future (Some b)) w1) = Blocked)
           \<and> (world_free w \<longrightarrow>
                (\<forall>k operations w2 m operation r w3 this.
                    list_all operation_free operations \<longrightarrow>
                    perform_all k operations w1 = Some w2 \<longrightarrow>
                    operation_free operation \<longrightarrow>
                    perform m operation w2 = Some (r, w3) \<longrightarrow>
                    \<not> is_broken_promise r
                  \<and> \<not> is_broken_promise (fst (Future_get this w2))
                  \<and> \<not> is_broken_promise (fst (Future_get this w3))))"
proof -
  let ?w0 = "upd_cell a (\<lambda>c. c\<lparr>m_then := Empty_fn\<rparr>) w"
  from Promise_destroy_returns [OF fin le, of "Promise (Some a)"] obtain w1
    where run: "Promise_destroy n (Promise (Some a)) w = Some w1" by blast
  then have d: "UniqueFunction_destroy n (m_then (cells w a)) ?w0 = Some w1"
    by (simp add: Let_def)
  from destroy_cleared [OF d]
  have "cells w1 a = cells ?w0 a \<or> cells w1 a = (cells ?w0 a)\<lparr>m_then := Empty_fn\<rparr>"
    by (simp add: cleared_def)
  then have gone: "m_then (cells w1 a) = Empty_fn"
    by (auto simp: upd_cell_def)
  have cl: "cleared w w1" by (rule Promise_destroy_cleared [OF run])
  then have env: "env w1 = env w" by (simp add: cleared_def)
  have same: "m_done (cells w1 b) = m_done (cells w b)
            \<and> m_result (cells w1 b) = m_result (cells w b)
            \<and> m_exception (cells w1 b) = m_exception (cells w b)" for b
  proof -
    from cl have "cells w1 b = cells w b \<or> cells w1 b = (cells w b)\<lparr>m_then := Empty_fn\<rparr>"
      by (simp add: cleared_def)
    then show ?thesis by auto
  qed
  have waits: "fst (Future_get (Future (Some b)) w1) = Blocked" if "\<not> m_done (cells w b)" for b
    using that same [of b]
    by (simp add: Future_get_def SharedState_getValue_def SharedState_wait_def)
  have never: "\<not> is_broken_promise r
             \<and> \<not> is_broken_promise (fst (Future_get this w2))
             \<and> \<not> is_broken_promise (fst (Future_get this w3))"
    if free: "world_free w"
      and ops: "list_all operation_free operations" "perform_all k operations w1 = Some w2"
      and op: "operation_free operation" "perform m operation w2 = Some (r, w3)"
    for k operations w2 m operation r w3 this
  proof -
    from world_free_cleared [OF cl free] have "world_free w1" .
    from perform_all_free [OF this ops] have free2: "world_free w2" .
    from perform_free [OF free2 op] Future_get_free [OF free2] Future_get_free [of w3]
    show ?thesis by simp
  qed
  from run gone env same waits never show ?thesis by blast
qed

theorem Promise_destroy_discards_witness:
  "world_free
     (upd_cell 0 (\<lambda>c. c\<lparr>m_then := Big (ThenLambda (Some 0) (Promise (Some 1)) (ignoring 7))\<rparr>)
        (snd (Promise_new (snd (Promise_new (world_init (0::nat) :: (int, nat) world))))))
   \<and> (\<exists>w1. Promise_destroy (Suc 0) (Promise (Some 0))
           (upd_cell 0 (\<lambda>c. c\<lparr>m_then := Big (ThenLambda (Some 0) (Promise (Some 1)) (ignoring 7))\<rparr>)
              (snd (Promise_new (snd (Promise_new (world_init (0::nat) :: (int, nat) world))))))
         = Some w1
      \<and> m_then (cells w1 0) = Empty_fn
      \<and> env w1 = 0
      \<and> fst (Future_get (Future (Some 1)) w1) = (Blocked :: int outcome)
      \<and> (\<exists>r w3. perform 0 (Op_setException 1 (Some bad_function_call)) w1 = Some (r, w3)
             \<and> \<not> is_broken_promise r
             \<and> \<not> is_broken_promise (fst (Future_get (Future (Some 1)) w3))))"
proof -
  let ?w = "upd_cell 0 (\<lambda>c. c\<lparr>m_then := Big (ThenLambda (Some 0) (Promise (Some 1)) (ignoring 7))\<rparr>)
              (snd (Promise_new (snd (Promise_new (world_init (0::nat) :: (int, nat) world)))))"
  have c: "continuations ?w = {0}"
    by (auto simp: continuations_def upd_cell_def Promise_new_def world_init_def
          SharedState_init_def)
  then have fin: "finite (continuations ?w)" and le: "card (continuations ?w) \<le> Suc 0"
    by simp_all
  have pend: "\<not> m_done (cells ?w 1)" and env: "env ?w = 0"
    by (simp_all add: upd_cell_def Promise_new_def world_init_def SharedState_init_def)
  have free: "world_free ?w"
    by (simp add: world_free_def cell_free_def upd_cell_def Promise_new_def world_init_def
          SharedState_init_def fn_free_def ignoring_def is_broken_promise_def)
  from Promise_destroy_discards [OF fin le, of 0] obtain w1
    where all: "Promise_destroy (Suc 0) (Promise (Some 0)) ?w = Some w1
           \<and> m_then (cells w1 0) = Empty_fn
           \<and> env w1 = env ?w
           \<and> (\<forall>b. m_done (cells w1 b) = m_done (cells ?w b)
                  \<and> m_result (cells w1 b) = m_result (cells ?w b)
                  \<and> m_exception (cells w1 b) = m_exception (cells ?w b))
           \<and> (\<forall>b. \<not> m_done (cells ?w b) \<longrightarrow> fst (Future_get (Future (Some b)) w1) = Blocked)
           \<and> (world_free ?w \<longrightarrow>
                (\<forall>k operations w2 m operation r w3 this.
                    list_all operation_free operations \<longrightarrow>
                    perform_all k operations w1 = Some w2 \<longrightarrow>
                    operation_free operation \<longrightarrow>
                    perform m operation w2 = Some (r, w3) \<longrightarrow>
                    \<not> is_broken_promise r
                  \<and> \<not> is_broken_promise (fst (Future_get this w2))
                  \<and> \<not> is_broken_promise (fst (Future_get this w3))))"
    ..
  note run = all [THEN conjunct1]
    and gone = all [THEN conjunct2, THEN conjunct1]
    and env1 = all [THEN conjunct2, THEN conjunct2, THEN conjunct1]
    and same = all [THEN conjunct2, THEN conjunct2, THEN conjunct2, THEN conjunct1]
    and waits = all [THEN conjunct2, THEN conjunct2, THEN conjunct2, THEN conjunct2,
                     THEN conjunct1]
    and never = all [THEN conjunct2, THEN conjunct2, THEN conjunct2, THEN conjunct2,
                     THEN conjunct2, THEN mp, OF free]
  have done1: "\<not> m_done (cells w1 1)" and then1: "m_then (cells w1 1) = Empty_fn"
  proof -
    from same pend show "\<not> m_done (cells w1 1)" by simp
    from Promise_destroy_cleared [OF run]
    have "cells w1 1 = cells ?w 1 \<or> cells w1 1 = (cells ?w 1)\<lparr>m_then := Empty_fn\<rparr>"
      by (simp add: cleared_def)
    then show "m_then (cells w1 1) = Empty_fn"
      by (auto simp: upd_cell_def Promise_new_def world_init_def SharedState_init_def)
  qed
  have step: "perform 0 (Op_setException 1 (Some bad_function_call)) w1
                = Some (Returned (),
                    upd_cell 1 (\<lambda>c. c\<lparr>m_done := True, m_then := Empty_fn\<rparr>)
                      (upd_cell 1 (\<lambda>c. c\<lparr>m_exception := Some bad_function_call\<rparr>) w1))"
    using setException_no_continuation [OF done1 then1, where n = 0 and e = "Some bad_function_call"]
    by simp
  have ops: "list_all operation_free ([] :: (int, nat) operation list)"
    "perform_all 0 [] w1 = Some w1"
    "operation_free (Op_setException 1 (Some bad_function_call) :: (int, nat) operation)"
    by simp_all
  from never [rule_format, OF ops step, of "Future (Some 1)"]
  have free3: "\<not> is_broken_promise (Returned () :: unit outcome)
      \<and> \<not> is_broken_promise (fst (Future_get (Future (Some 1))
            (upd_cell 1 (\<lambda>c. c\<lparr>m_done := True, m_then := Empty_fn\<rparr>)
               (upd_cell 1 (\<lambda>c. c\<lparr>m_exception := Some bad_function_call\<rparr>) w1))))"
    by simp
  from waits pend have blocked: "fst (Future_get (Future (Some 1)) w1) = Blocked" by simp
  from free run gone env1 env blocked step free3 show ?thesis by auto
qed

subsection \<open>Calling a UniqueFunction\<close>

text \<open>
  Claim C9. A \<^verbatim>\<open>UniqueFunction\<close> that holds a closure hands the arguments to the closure and
  gives back the closure's outcome, on one call and on any sequence of calls, and it still
  holds the closure afterwards. An empty one (default-constructed, built from
  \<^verbatim>\<open>nullptr\<close>, or moved from) throws \<^verbatim>\<open>std::bad_function_call\<close> on every call and
  leaves the state alone.
\<close>

theorem UniqueFunction_invocation:
  "operator_call app (UniqueFunction_closure sz c) arg s =
     (case app c arg s of (r, c1, s1) \<Rightarrow> (r, UniqueFunction_closure sz c1, s1))
   \<and> calls app (UniqueFunction_closure sz c) args s =
     (case closure_calls app c args s of
        (rs, c1, s1) \<Rightarrow> (rs, UniqueFunction_closure sz c1, s1))
   \<and> operator_call app UniqueFunction_default arg s = (Threw bad_function_call, Empty_fn, s)
   \<and> operator_call app UniqueFunction_nullptr arg s = (Threw bad_function_call, Empty_fn, s)
   \<and> operator_call app (snd (UniqueFunction_move this)) arg s
        = (Threw bad_function_call, Empty_fn, s)
   \<and> calls app Empty_fn args s = (map (\<lambda>_. Threw bad_function_call) args, Empty_fn, s)"
  by (simp add: calls_closure calls_empty UniqueFunction_default_def UniqueFunction_nullptr_def
        UniqueFunction_move_def)
     (simp add: UniqueFunction_closure_def split: prod.splits)

theorem UniqueFunction_invocation_witness:
  "fst (calls (\<lambda>c x s. (Returned (x * x + c), c, Suc s))
          (UniqueFunction_closure 8 (1::int)) [5, 3] (0::nat))
     = [Returned 26, Returned 10]
   \<and> fst (calls (\<lambda>c x s. (Returned (x * x + c), c, Suc s))
          (snd (UniqueFunction_move (UniqueFunction_closure 8 (1::int)))) [5, 3] (0::nat))
     = [Threw bad_function_call, Threw bad_function_call]"
  using UniqueFunction_invocation
    [of "\<lambda>c x s. (Returned (x * x + c), c, Suc s)" 8 "1::int" 5 "0::nat" "[5, 3]"
        "UniqueFunction_closure 8 (1::int)"]
  by (simp add: UniqueFunction_move_def UniqueFunction_closure_def IsSmall_def
        s_TinyStorageMaxCapacity_def)

subsection \<open>get() on the error path\<close>

text \<open>
  Claim C10. \<^verbatim>\<open>Future::get()\<close> gives up the cell before it reads it: when the cell holds
  an exception, \<^verbatim>\<open>get()\<close> rethrows it and the future is invalid afterwards, so that a
  second \<^verbatim>\<open>get()\<close>, in any world, throws \<^verbatim>\<open>no_state\<close>. A \<^verbatim>\<open>get()\<close> that throws
  \<^verbatim>\<open>no_state\<close> leaves the handle as it was.
\<close>

theorem get_consumes_on_error:
  assumes "m_done (cells w a)" and "m_exception (cells w a) = Some e"
  shows "Future_get (Future (Some a)) w = (Threw e, Future None)
       \<and> \<not> Future_valid (snd (Future_get (Future (Some a)) w))
       \<and> Future_get (snd (Future_get (Future (Some a)) w)) w1
            = (Threw (FutureError no_state), snd (Future_get (Future (Some a)) w))
       \<and> (\<forall>this. \<not> Future_valid this \<longrightarrow>
             Future_get this w1 = (Threw (FutureError no_state), this))"
  using assms
  by (auto simp: Future_get_def Future_valid_def SharedState_getValue_def SharedState_wait_def
        split: option.splits)

theorem get_consumes_on_error_witness:
  "m_done (cells (upd_cell 0 (\<lambda>c. c\<lparr>m_done := True, m_exception := Some (user_exception ''std::logic_error'' ''Task failed!'')\<rparr>)
                   (world_init () :: (int, unit) world)) 0)
   \<and> Future_get (Future (Some 0))
        (upd_cell 0 (\<lambda>c. c\<lparr>m_done := True, m_exception := Some (user_exception ''std::logic_error'' ''Task failed!'')\<rparr>)
                   (world_init () :: (int, unit) world))
      = (Threw (user_exception ''std::logic_error'' ''Task failed!''), Future None)
   \<and> Future_get (Future None) (world_init () :: (int, unit) world)
      = (Threw (FutureError no_state), Future None)"
  using get_consumes_on_error
    [of "upd_cell 0 (\<lambda>c. c\<lparr>m_done := True, m_exception := Some (user_exception ''std::logic_error'' ''Task failed!'')\<rparr>)
                   (world_init () :: (int, unit) world)" 0
        "user_exception ''std::logic_error'' ''Task failed!''"
        "world_init () :: (int, unit) world"]
  by (simp add: upd_cell_def world_init_def Future_valid_def)

end
